theory Spec2Isabelle
  imports Main "HOL-Library.Sublist"
begin

section \<open>Strings and regular-expression replacement\<close>

text \<open>
  A JavaScript string is modelled as a \<open>string\<close>: one \<open>char\<close> per code unit, for the code
  units below 256. The character classes of the regular expressions used by the projection
  serializer are \<open>\s\<close> (white space; below 256 these are TAB, LF, VT, FF, CR, SPACE and
  NBSP), \<open>\d\<close> (the ten ASCII digits) and \<open>[a-zA-Z0-9]\<close>.
\<close>

definition isSpace :: "char \<Rightarrow> bool" where
  "isSpace c = (of_char c \<in> {9, 10, 11, 12, 13, 32, 160 :: nat})"

definition isDigit :: "char \<Rightarrow> bool" where
  "isDigit c = (48 \<le> (of_char c :: nat) \<and> (of_char c :: nat) \<le> 57)"

definition isAlnum :: "char \<Rightarrow> bool" where
  "isAlnum c = (let n = (of_char c :: nat) in
     (48 \<le> n \<and> n \<le> 57) \<or> (65 \<le> n \<and> n \<le> 90) \<or> (97 \<le> n \<and> n \<le> 122))"

text \<open>\<open>strip_prefix p s\<close>: the text after the literal \<open>p\<close> when \<open>s\<close> starts with it.\<close>

fun strip_prefix :: "string \<Rightarrow> string \<Rightarrow> string option" where
  "strip_prefix [] s = Some s"
| "strip_prefix (p # ps) [] = None"
| "strip_prefix (p # ps) (c # cs) = (if p = c then strip_prefix ps cs else None)"

text \<open>
  \<open>String.prototype.split(sep)\<close> for a one-character separator: the pieces between the
  separators, never an empty list (\<open>"".split(" ")\<close> is \<open>[""]\<close>).
\<close>

fun split_on :: "char \<Rightarrow> string \<Rightarrow> string list" where
  "split_on sep [] = [[]]"
| "split_on sep (c # cs) =
     (if c = sep then [] # split_on sep cs
      else (case split_on sep cs of [] \<Rightarrow> [[c]] | p # ps \<Rightarrow> (c # p) # ps))"

text \<open>\<open>Array.prototype.join(sep)\<close>.\<close>

fun join :: "string \<Rightarrow> string list \<Rightarrow> string" where
  "join sep [] = []"
| "join sep [x] = x"
| "join sep (x # y # ys) = x @ sep @ join sep (y # ys)"

text \<open>
  \<open>text.replace(regex, callback)\<close> for a global regular expression. The regular expression
  is given by its matcher at the start of a text: \<open>m s = Some (n, g)\<close> when it matches the
  first \<open>n\<close> characters of \<open>s\<close> with capture groups \<open>g\<close>. The scan goes left to right: where
  the expression matches, the callback's result replaces the match and the scan goes on
  behind it; elsewhere the character is kept. (The expressions below never match the empty
  string; a match of length 0 is stepped over like a character.)
\<close>

fun replace_global ::
  "(string \<Rightarrow> (nat \<times> 'g) option) \<Rightarrow> (string \<Rightarrow> 'g \<Rightarrow> string) \<Rightarrow> string \<Rightarrow> string" where
  "replace_global m f [] = []"
| "replace_global m f (c # cs) =
     (case m (c # cs) of
        Some (n, g) \<Rightarrow> f (take n (c # cs)) g @ replace_global m f (drop (n - 1) cs)
      | None \<Rightarrow> c # replace_global m f cs)"

section \<open>Projection (src/clauses/sub-clauses/Projection.ts)\<close>

text \<open>
  \<open>ProjectionColumn = Expr | [Expr, string | Variable | Literal]\<close>. Expressions \<open>'e\<close> and
  alias references \<open>'r\<close> (a Variable or a Literal) are rendered by their own \<open>getCypher\<close>,
  which takes the environment, may register names in it and may throw: a renderer is a
  function \<open>'e \<Rightarrow> 'env \<Rightarrow> 'x + string \<times> 'env\<close>.
\<close>

datatype 'r Alias = AliasString string | AliasRef 'r

datatype ('e, 'r) ProjectionColumn = Plain 'e | Aliased 'e "'r Alias"

datatype ('e, 'r) ColumnArg = Star | Col "('e, 'r) ProjectionColumn"

record ('e, 'r) Projection =
  columns :: "('e, 'r) ProjectionColumn list"
  isStar :: bool

type_synonym ('a, 'env, 'x) renderer = "'a \<Rightarrow> 'env \<Rightarrow> 'x + string \<times> 'env"

text \<open>
  The sub-expression \<open>key:\s*this(\d+)prop\<close> of the two regular expressions, matched at the
  start of a text: the length of the match and the digits. \<open>\s*\<close> and \<open>\d+\<close> are greedy,
  and giving characters back never helps, since the next character has to be \<open>t\<close>
  (not white space) and \<open>.\<close> (not a digit).
\<close>

definition numbered_access :: "string \<Rightarrow> string \<Rightarrow> string \<Rightarrow> (nat \<times> string) option" where
  "numbered_access key prop s =
     (case strip_prefix key s of None \<Rightarrow> None | Some r1 \<Rightarrow>
      (case strip_prefix ''this'' (dropWhile isSpace r1) of None \<Rightarrow> None | Some r2 \<Rightarrow>
       (if takeWhile isDigit r2 = [] then None
        else (case strip_prefix prop (dropWhile isDigit r2) of None \<Rightarrow> None
              | Some r3 \<Rightarrow> Some (length s - length r3, takeWhile isDigit r2)))))"

text \<open>
  \<open>/(key:\s*this(\d+)prop|prop)/g\<close>: the first alternative is tried first. Group 1 is the
  whole match, group 2 the digits, undefined in the second alternative.
\<close>

definition access_regex ::
  "string \<Rightarrow> string \<Rightarrow> string \<Rightarrow> (nat \<times> string \<times> string option) option" where
  "access_regex key prop s =
     (case numbered_access key prop s of
        Some (n, num) \<Rightarrow> Some (n, take n s, Some num)
      | None \<Rightarrow> (case strip_prefix prop s of
                  Some r \<Rightarrow> Some (length prop, prop, None)
                | None \<Rightarrow> None))"

definition idRegexPattern :: "string \<Rightarrow> (nat \<times> string \<times> string option) option" where
  "idRegexPattern = access_regex ''id:'' ''.id''"

definition labelRegexPattern :: "string \<Rightarrow> (nat \<times> string \<times> string option) option" where
  "labelRegexPattern = access_regex ''labels:'' ''.labels''"

text \<open>The two callbacks: a non-empty group 1 is truthy; \<open>idNumber ?? ""\<close>.\<close>

definition idReplacer :: "string \<Rightarrow> string \<times> string option \<Rightarrow> string" where
  "idReplacer match g =
     (case g of (idMatch, idNumber) \<Rightarrow>
        if idMatch \<noteq> [] then ''id: id(this'' @ (case idNumber of Some n \<Rightarrow> n | None \<Rightarrow> []) @ '')''
        else match)"

definition labelReplacer :: "string \<Rightarrow> string \<times> string option \<Rightarrow> string" where
  "labelReplacer match g =
     (case g of (labelMatch, labelNumber) \<Rightarrow>
        if labelMatch \<noteq> []
        then ''labels: labels(this'' @ (case labelNumber of Some n \<Rightarrow> n | None \<Rightarrow> []) @ '')''
        else match)"

definition idReplacedString :: "string \<Rightarrow> string" where
  "idReplacedString exprStr = replace_global idRegexPattern idReplacer exprStr"

definition replacedString :: "string \<Rightarrow> string" where
  "replacedString exprStr =
     replace_global labelRegexPattern labelReplacer (idReplacedString exprStr)"

text \<open>\<open>serializeColumn\<close>: both branches rewrite the rendered expression the same way.\<close>

definition serializeColumn ::
  "('e, 'env, 'x) renderer \<Rightarrow> ('r, 'env, 'x) renderer \<Rightarrow> ('e, 'r) ProjectionColumn \<Rightarrow> 'env
     \<Rightarrow> 'x + string \<times> 'env" where
  "serializeColumn exprCypher refCypher column env =
     (case column of
        Aliased e alias \<Rightarrow>
          (case exprCypher e env of Inl x \<Rightarrow> Inl x | Inr (exprStr, env1) \<Rightarrow>
            (case alias of
               AliasString aliasStr \<Rightarrow> Inr (replacedString exprStr @ '' AS '' @ aliasStr, env1)
             | AliasRef r \<Rightarrow>
                 (case refCypher r env1 of Inl x \<Rightarrow> Inl x
                  | Inr (aliasStr, env2) \<Rightarrow>
                      Inr (replacedString exprStr @ '' AS '' @ aliasStr, env2))))
      | Plain e \<Rightarrow>
          (case exprCypher e env of Inl x \<Rightarrow> Inl x
           | Inr (cypher, env1) \<Rightarrow> Inr (replacedString cypher, env1)))"

text \<open>
  \<open>this.columns.map(...)\<close>: the columns are rendered from left to right, each with the
  environment the previous one left; the first throw ends the rendering.
\<close>

fun map_render :: "('a, 'env, 'x) renderer \<Rightarrow> 'a list \<Rightarrow> 'env \<Rightarrow> 'x + string list \<times> 'env" where
  "map_render r [] env = Inr ([], env)"
| "map_render r (a # as) env =
     (case r a env of Inl x \<Rightarrow> Inl x
      | Inr (s, env1) \<Rightarrow>
          (case map_render r as env1 of Inl x \<Rightarrow> Inl x
           | Inr (ss, env2) \<Rightarrow> Inr (s # ss, env2)))"

text \<open>
  \<open>addColumns\<close> changes the object: a \<open>"*"\<close> sets \<open>isStar\<close> and is filtered out, the other
  columns are pushed behind the ones already there.
\<close>

fun isStarArg :: "('e, 'r) ColumnArg \<Rightarrow> bool" where
  "isStarArg Star = True"
| "isStarArg (Col c) = False"

fun filteredColumns :: "('e, 'r) ColumnArg list \<Rightarrow> ('e, 'r) ProjectionColumn list" where
  "filteredColumns [] = []"
| "filteredColumns (Star # vs) = filteredColumns vs"
| "filteredColumns (Col c # vs) = c # filteredColumns vs"

definition addColumns ::
  "('e, 'r) ColumnArg list \<Rightarrow> ('e, 'r) Projection \<Rightarrow> ('e, 'r) Projection" where
  "addColumns cols this =
     \<lparr> columns = columns this @ filteredColumns cols,
       isStar = (isStar this \<or> list_ex isStarArg cols) \<rparr>"

definition newProjection :: "('e, 'r) ColumnArg list \<Rightarrow> ('e, 'r) Projection" where
  "newProjection cols = addColumns cols \<lparr> columns = [], isStar = False \<rparr>"

text \<open>
  \<open>getCypher\<close> for a given column serializer. The method is handed the object and returns it
  with the text, as every method of the class is; its body assigns to no field.
\<close>

definition getCypher_with ::
  "(('e, 'r) ProjectionColumn, 'env, 'x) renderer \<Rightarrow> ('e, 'r) Projection \<Rightarrow> 'env
     \<Rightarrow> 'x + string \<times> ('e, 'r) Projection \<times> 'env" where
  "getCypher_with serialize this env =
     (case map_render serialize (columns this) env of Inl x \<Rightarrow> Inl x
      | Inr (columnsStrs, env1) \<Rightarrow>
          Inr (join '', '' (if isStar this then ''*'' # columnsStrs else columnsStrs),
               this, env1))"

definition getCypher ::
  "('e, 'env, 'x) renderer \<Rightarrow> ('r, 'env, 'x) renderer \<Rightarrow> ('e, 'r) Projection \<Rightarrow> 'env
     \<Rightarrow> 'x + string \<times> ('e, 'r) Projection \<times> 'env" where
  "getCypher exprCypher refCypher = getCypher_with (serializeColumn exprCypher refCypher)"

text \<open>
  The same method with the object in the state. The renderers of the column expressions are
  handed the environment, but they are code of their own and the object is reachable for
  them like any other: here the state is the object \<open>this\<close> together with everything else
  (the environment, other objects), and the renderers are functions on this state.
  \<open>Array.prototype.map\<close> takes the length of \<open>this.columns\<close> once and then, for each index
  below it, reads the element from the array as it is at that moment; an index that is no
  longer in the array leaves a hole, which \<open>join\<close> writes as the empty string.
  \<open>this.isStar\<close> is read when the columns have been rendered. No field is assigned to.
\<close>

fun array_map ::
  "('s \<Rightarrow> 'a list) \<Rightarrow> ('a, 's, 'x) renderer \<Rightarrow> nat list \<Rightarrow> 's \<Rightarrow> 'x + string list \<times> 's" where
  "array_map arr callback [] s = Inr ([], s)"
| "array_map arr callback (k # ks) s =
     (if k < length (arr s)
      then (case callback (arr s ! k) s of Inl x \<Rightarrow> Inl x
            | Inr (mapped, s1) \<Rightarrow>
                (case array_map arr callback ks s1 of Inl x \<Rightarrow> Inl x
                 | Inr (rest, s2) \<Rightarrow> Inr (mapped # rest, s2)))
      else (case array_map arr callback ks s of Inl x \<Rightarrow> Inl x
            | Inr (rest, s2) \<Rightarrow> Inr ([] # rest, s2)))"

definition getCypher_on ::
  "(('e, 'r) ProjectionColumn, ('e, 'r) Projection \<times> 'o, 'x) renderer
     \<Rightarrow> ('e, 'r) Projection \<times> 'o \<Rightarrow> 'x + string \<times> ('e, 'r) Projection \<times> 'o" where
  "getCypher_on serialize s =
     (case array_map (\<lambda>s. columns (fst s)) serialize [0..<length (columns (fst s))] s of
        Inl x \<Rightarrow> Inl x
      | Inr (columnsStrs, s1) \<Rightarrow>
          Inr (join '', '' (if isStar (fst s1) then ''*'' # columnsStrs else columnsStrs), s1))"

text \<open>\<open>addColumns\<close> with the object in the state: the method that does change the object.\<close>

definition addColumns_on ::
  "('e, 'r) ColumnArg list \<Rightarrow> ('e, 'r) Projection \<times> 'o \<Rightarrow> ('e, 'r) Projection \<times> 'o" where
  "addColumns_on cols s = (addColumns cols (fst s), snd s)"

section \<open>Projection, the other revision of the file (unnamed/part_000)\<close>

text \<open>
  The class differs from the one above in \<open>serializeColumn\<close> only. The regular expression
  is \<open>/(\.id|\.labels)/g\<close>; the variable name put into the call is cut out of the rendered
  text: for an aliased column the text before the first blank, for a plain column the
  letters and digits of the last but one blank-separated piece of the text before the first
  \<open>{\<close> (of the only piece when there is no blank). A plain column is rewritten only when
  that name is not empty.
\<close>

definition regexPattern :: "string \<Rightarrow> (nat \<times> string) option" where
  "regexPattern s =
     (case strip_prefix ''.id'' s of Some r \<Rightarrow> Some (3, ''.id'')
      | None \<Rightarrow> (case strip_prefix ''.labels'' s of Some r \<Rightarrow> Some (7, ''.labels'')
                 | None \<Rightarrow> None))"

definition replacer :: "string \<Rightarrow> string \<Rightarrow> string \<Rightarrow> string" where
  "replacer varName match group1 =
     (if group1 = ''.id'' then ''id: id('' @ varName @ '')''
      else if group1 = ''.labels'' then ''labels: labels('' @ varName @ '')''
      else match)"

definition replacedString_part000 :: "string \<Rightarrow> string \<Rightarrow> string" where
  "replacedString_part000 varName exprStr = replace_global regexPattern (replacer varName) exprStr"

definition varName :: "string \<Rightarrow> string" where
  "varName exprStr = (case split_on (CHR '' '') exprStr of [] \<Rightarrow> [] | p # ps \<Rightarrow> p)"

definition variableMatch :: "string \<Rightarrow> string" where
  "variableMatch cypher =
     (case split_on (CHR ''{'') cypher of [] \<Rightarrow> []
      | beforeBrace # rest \<Rightarrow>
          (let pieces = split_on (CHR '' '') beforeBrace in
           (case drop (length pieces - 2) pieces of [] \<Rightarrow> []
            | piece # others \<Rightarrow> filter isAlnum piece)))"

definition serializeColumn_part000 ::
  "('e, 'env, 'x) renderer \<Rightarrow> ('r, 'env, 'x) renderer \<Rightarrow> ('e, 'r) ProjectionColumn \<Rightarrow> 'env
     \<Rightarrow> 'x + string \<times> 'env" where
  "serializeColumn_part000 exprCypher refCypher column env =
     (case column of
        Aliased e alias \<Rightarrow>
          (case exprCypher e env of Inl x \<Rightarrow> Inl x | Inr (exprStr, env1) \<Rightarrow>
            (case alias of
               AliasString aliasStr \<Rightarrow>
                 Inr (replacedString_part000 (varName exprStr) exprStr @ '' AS '' @ aliasStr, env1)
             | AliasRef r \<Rightarrow>
                 (case refCypher r env1 of Inl x \<Rightarrow> Inl x
                  | Inr (aliasStr, env2) \<Rightarrow>
                      Inr (replacedString_part000 (varName exprStr) exprStr @ '' AS '' @ aliasStr,
                           env2))))
      | Plain e \<Rightarrow>
          (case exprCypher e env of Inl x \<Rightarrow> Inl x
           | Inr (cypher, env1) \<Rightarrow>
               if variableMatch cypher \<noteq> []
               then Inr (replacedString_part000 (variableMatch cypher) cypher, env1)
               else Inr (cypher, env1)))"

definition getCypher_part000 ::
  "('e, 'env, 'x) renderer \<Rightarrow> ('r, 'env, 'x) renderer \<Rightarrow> ('e, 'r) Projection \<Rightarrow> 'env
     \<Rightarrow> 'x + string \<times> ('e, 'r) Projection \<times> 'env" where
  "getCypher_part000 exprCypher refCypher =
     getCypher_with (serializeColumn_part000 exprCypher refCypher)"

section \<open>Type predicates (unnamed/part_001)\<close>

datatype BaseTypes =
    ANY | BOOLEAN | DATE | DURATION | FLOAT | INTEGER | LOCAL_DATETIME | LOCAL_TIME | MAP
  | NODE | NOTHING | NULL | PATH | POINT | PROPERTY_VALUE | RELATIONSHIP | STRING
  | ZONED_DATETIME | ZONED_TIME

fun BaseTypes_value :: "BaseTypes \<Rightarrow> string" where
  "BaseTypes_value ANY = ''ANY''"
| "BaseTypes_value BOOLEAN = ''BOOLEAN''"
| "BaseTypes_value DATE = ''DATE''"
| "BaseTypes_value DURATION = ''DURATION''"
| "BaseTypes_value FLOAT = ''FLOAT''"
| "BaseTypes_value INTEGER = ''INTEGER''"
| "BaseTypes_value LOCAL_DATETIME = ''LOCAL DATETIME''"
| "BaseTypes_value LOCAL_TIME = ''LOCAL_TIME''"
| "BaseTypes_value MAP = ''MAP''"
| "BaseTypes_value NODE = ''NODE''"
| "BaseTypes_value NOTHING = ''NOTHING''"
| "BaseTypes_value NULL = ''NULL''"
| "BaseTypes_value PATH = ''PATH''"
| "BaseTypes_value POINT = ''POINT''"
| "BaseTypes_value PROPERTY_VALUE = ''PROPERTY VALUE''"
| "BaseTypes_value RELATIONSHIP = ''RELATIONSHIP''"
| "BaseTypes_value STRING = ''STRING''"
| "BaseTypes_value ZONED_DATETIME = ''ZONED DATETIME''"
| "BaseTypes_value ZONED_TIME = ''ZONED TIME''"

text \<open>\<open>type Type = ValueOf<typeof BaseTypes> | ListType\<close>.\<close>

datatype Type = Base BaseTypes | ListType Type

text \<open>
  Modelled from the spec: \<open>Environment.compile\<close> is not among the sources; the
  environment's compilation entry point asks the element to render itself with this
  environment, so \<open>env.compile(type)\<close> is \<open>type.getCypher(env)\<close>. Rendering a type
  neither reads nor changes the environment.
\<close>

fun compileType :: "Type \<Rightarrow> 'env \<Rightarrow> string" where
  "compileType (Base b) env = BaseTypes_value b"
| "compileType (ListType t) env = ''LIST<'' @ compileType t env @ ''>''"

record 'e IsType =
  expr :: 'e
  type :: "Type list"
  not :: bool
  notNull_flag :: bool

definition newIsType :: "'e \<Rightarrow> Type list \<Rightarrow> bool \<Rightarrow> 'e IsType" where
  "newIsType e ts n = \<lparr> expr = e, type = ts, not = n, notNull_flag = False \<rparr>"

definition isType :: "'e \<Rightarrow> Type list \<Rightarrow> 'e IsType" where
  "isType e ts = newIsType e ts False"

definition isNotType :: "'e \<Rightarrow> Type list \<Rightarrow> 'e IsType" where
  "isNotType e ts = newIsType e ts True"

definition notNull :: "'e IsType \<Rightarrow> 'e IsType" where
  "notNull this = this\<lparr> notNull_flag := True \<rparr>"

definition IsType_getCypher ::
  "('e, 'env, 'x) renderer \<Rightarrow> 'e IsType \<Rightarrow> 'env \<Rightarrow> 'x + string \<times> 'e IsType \<times> 'env" where
  "IsType_getCypher compile this env =
     (case compile (expr this) env of Inl x \<Rightarrow> Inl x
      | Inr (exprCypher, env1) \<Rightarrow>
          (let isStr = (if not this then ''IS NOT'' else ''IS'');
               notNullStr = (if notNull_flag this then '' NOT NULL'' else []);
               typesStr = map (\<lambda>t. compileType t env1 @ notNullStr) (type this)
           in Inr (exprCypher @ '' '' @ isStr @ '' :: '' @ join '' | '' typesStr, this, env1)))"

text \<open>
  \<open>IsType.getCypher\<close> with the object in the state: the expression is compiled first, the
  two flags and the type list are read afterwards.
\<close>

definition IsType_getCypher_on ::
  "('e, 'e IsType \<times> 'o, 'x) renderer \<Rightarrow> 'e IsType \<times> 'o \<Rightarrow> 'x + string \<times> 'e IsType \<times> 'o" where
  "IsType_getCypher_on compile s =
     (case compile (expr (fst s)) s of Inl x \<Rightarrow> Inl x
      | Inr (exprCypher, s1) \<Rightarrow>
          (let isStr = (if not (fst s1) then ''IS NOT'' else ''IS'');
               notNullStr = (if notNull_flag (fst s1) then '' NOT NULL'' else []);
               typesStr = map (\<lambda>t. compileType t s1 @ notNullStr) (type (fst s1))
           in Inr (exprCypher @ '' '' @ isStr @ '' :: '' @ join '' | '' typesStr, s1)))"

section \<open>Notions used to state the properties\<close>

text \<open>
  Modelled from the spec: the class \<open>RawCypher\<close> is not among the sources. Its
  documentation (docs/modules/ROOT/pages/how-to/customize-cypher.adoc) says that a
  \<open>RawCypher\<close> built from a string is an expression that renders as this string; the
  environment is left as it is. It serves as the expression of the concrete columns below.
\<close>

definition RawCypher_getCypher :: "(string, 'env, 'x) renderer" where
  "RawCypher_getCypher s env = Inr (s, env)"

text \<open>
  A renderer that works on the environment it is handed and on nothing else, as a function
  on the state made of an object and the environment.
\<close>

definition onEnvironment :: "('a, 'env, 'x) renderer \<Rightarrow> ('a, 'n \<times> 'env, 'x) renderer" where
  "onEnvironment r a s =
     (case r a (snd s) of Inl x \<Rightarrow> Inl x | Inr (t, env1) \<Rightarrow> Inr (t, (fst s, env1)))"

text \<open>
  The expression of a column, and what follows its rewritten text in the output: nothing
  for a plain column, \<open>AS\<close> and the alias for an aliased one, where the alias is the string
  itself or the rendering of the reference in the environment that the expression has left.
\<close>

fun columnExpr :: "('e, 'r) ProjectionColumn \<Rightarrow> 'e" where
  "columnExpr (Plain e) = e"
| "columnExpr (Aliased e alias) = e"

fun aliasPart :: "('r, 'env, 'x) renderer \<Rightarrow> ('e, 'r) ProjectionColumn \<Rightarrow> 'env \<Rightarrow> 'x + string \<times> 'env" where
  "aliasPart refCypher (Plain e) env = Inr ([], env)"
| "aliasPart refCypher (Aliased e (AliasString aliasStr)) env = Inr ('' AS '' @ aliasStr, env)"
| "aliasPart refCypher (Aliased e (AliasRef r)) env =
     (case refCypher r env of Inl x \<Rightarrow> Inl x
      | Inr (aliasStr, env2) \<Rightarrow> Inr ('' AS '' @ aliasStr, env2))"

text \<open>
  \<open>ends_with_numbered key pre\<close>: the text \<open>pre\<close> ends with \<open>key\<close>, white space (possibly
  none), \<open>this\<close> and at least one digit, so that \<open>pre\<close> followed by the property is the shape
  \<open>key:\s*this(\d+)prop\<close> of the regular expression. It is computed from the end of the
  text.
\<close>

definition ends_with_numbered :: "string \<Rightarrow> string \<Rightarrow> bool" where
  "ends_with_numbered key pre =
     (takeWhile isDigit (rev pre) \<noteq> [] \<and>
      (case strip_prefix (rev ''this'') (dropWhile isDigit (rev pre)) of
         None \<Rightarrow> False
       | Some r \<Rightarrow> strip_prefix (rev key) (dropWhile isSpace r) \<noteq> None))"

text \<open>
  What the two regular expressions need of their key and property: the property starts
  with its only dot, the key is not empty, has no dot and ends with no white space.
\<close>

definition access_wf :: "string \<Rightarrow> string \<Rightarrow> bool" where
  "access_wf key prop =
     (key \<noteq> [] \<and> CHR ''.'' \<notin> set key \<and> \<not> isSpace (last key) \<and>
      prop \<noteq> [] \<and> hd prop = CHR ''.'' \<and> CHR ''.'' \<notin> set (tl prop))"

section \<open>The naming environment, patterns and the build entry point\<close>

text \<open>
  Modelled from the spec: the Environment with its naming allocator, the Variable and
  Parameter references, the Pattern with its builder and the build entry point are not among
  the sources. The definitions of this section follow sections 3, 4 and 7 of the
  specification.

  An identity object is a value of \<open>identity\<close>: its number tells objects apart, its class
  is Variable or Parameter, and it carries the name the caller gave it, if any. Two
  references are to the same object exactly when the values are equal.
\<close>

datatype error =
  NameCollisionError | AmbiguousParameterBindingError | IncompletePatternError
  | InvalidQuantifierError

datatype idclass = VariableClass | ParameterClass

datatype identity = Identity (uid: nat) (idclass: idclass) (explicitName: "string option")

text \<open>
  Modelled from the spec: the Environment (section 3) has the prefix, the memoized names of
  the identities, one counter per class and the parameter bindings. A fresh one is made for
  every build.
\<close>

record 'v Environment =
  envPrefix :: string
  names :: "(identity \<times> string) list"
  varCounter :: nat
  paramCounter :: nat
  parameterMap :: "(string \<times> 'v) list"

definition freshEnvironment :: "string \<Rightarrow> 'v Environment" where
  "freshEnvironment p =
     \<lparr> envPrefix = p, names = [], varCounter = 0, paramCounter = 0, parameterMap = [] \<rparr>"

text \<open>Modelled from the spec: the class tags and the decimal suffix of generated names
  (\<open>var0\<close>, \<open>var1\<close>, \<open>param0\<close>).\<close>

fun classTag :: "idclass \<Rightarrow> string" where
  "classTag VariableClass = ''var''"
| "classTag ParameterClass = ''param''"

definition digitChar :: "nat \<Rightarrow> char" where
  "digitChar d = char_of (48 + d)"

fun showNat :: "nat \<Rightarrow> string" where
  "showNat n = (if n < 10 then [digitChar n] else showNat (n div 10) @ [digitChar (n mod 10)])"

declare showNat.simps [simp del]

definition counterOf :: "'v Environment \<Rightarrow> idclass \<Rightarrow> nat" where
  "counterOf env c = (case c of VariableClass \<Rightarrow> varCounter env | ParameterClass \<Rightarrow> paramCounter env)"

definition advance :: "idclass \<Rightarrow> 'v Environment \<Rightarrow> 'v Environment" where
  "advance c env =
     (case c of VariableClass \<Rightarrow> env\<lparr> varCounter := varCounter env + 1 \<rparr>
      | ParameterClass \<Rightarrow> env\<lparr> paramCounter := paramCounter env + 1 \<rparr>)"

text \<open>
  Modelled from the spec: the naming allocator (section 4.1). A named identity gets the
  caller's name verbatim, without the prefix; it is a \<open>NameCollisionError\<close> (sections 4.1
  and 7) when a different identity already has that name in this environment. An anonymous
  identity gets the prefix, the class tag and the counter of its class, and the counter
  goes on to the next integer.
\<close>

definition taken :: "'v Environment \<Rightarrow> identity \<Rightarrow> string \<Rightarrow> bool" where
  "taken env i n = list_ex (\<lambda>entry. snd entry = n \<and> fst entry \<noteq> i) (names env)"

definition allocate :: "'v Environment \<Rightarrow> identity \<Rightarrow> error + string \<times> 'v Environment" where
  "allocate env i =
     (case explicitName i of
        Some n \<Rightarrow> if taken env i n then Inl NameCollisionError else Inr (n, env)
      | None \<Rightarrow>
          Inr (envPrefix env @ classTag (idclass i) @ showNat (counterOf env (idclass i)),
               advance (idclass i) env))"

text \<open>Modelled from the spec: \<open>nameOf\<close>, \<open>recordParameter\<close> and \<open>finalize\<close> of the
  Environment (section 4.2).\<close>

definition nameOf :: "'v Environment \<Rightarrow> identity \<Rightarrow> error + string \<times> 'v Environment" where
  "nameOf env i =
     (case map_of (names env) i of
        Some n \<Rightarrow> Inr (n, env)
      | None \<Rightarrow>
          (case allocate env i of Inl x \<Rightarrow> Inl x
           | Inr (n, env1) \<Rightarrow> Inr (n, env1\<lparr> names := (i, n) # names env1 \<rparr>)))"

definition recordParameter ::
  "'v Environment \<Rightarrow> identity \<Rightarrow> 'v \<Rightarrow> error + string \<times> 'v Environment" where
  "recordParameter env i v =
     (case nameOf env i of Inl x \<Rightarrow> Inl x
      | Inr (n, env1) \<Rightarrow>
          (case map_of (parameterMap env1) n of
             Some w \<Rightarrow> if w = v then Inr (n, env1) else Inl AmbiguousParameterBindingError
           | None \<Rightarrow> Inr (n, env1\<lparr> parameterMap := (n, v) # parameterMap env1 \<rparr>)))"

fun mergeExtra :: "(string \<times> 'v) list \<Rightarrow> (string \<times> 'v) list \<Rightarrow> error + (string \<times> 'v) list" where
  "mergeExtra m [] = Inr m"
| "mergeExtra m ((k, v) # extras) =
     (if map_of m k \<noteq> None then Inl NameCollisionError else mergeExtra ((k, v) # m) extras)"

definition finalize :: "'v Environment \<Rightarrow> (string \<times> 'v) list \<Rightarrow> error + (string \<times> 'v) list" where
  "finalize env extras = mergeExtra (parameterMap env) extras"

text \<open>
  Modelled from the spec: what a rendering is made of. The text is the concatenation of
  the pieces; a piece that is the name of an identity keeps the identity, so that the
  render positions of a variable can be told.
\<close>

datatype piece = Text string | Name identity string

fun pieceText :: "piece \<Rightarrow> string" where
  "pieceText (Text s) = s"
| "pieceText (Name i n) = n"

definition text_of :: "piece list \<Rightarrow> string" where
  "text_of ps = concat (map pieceText ps)"

text \<open>
  Modelled from the spec: the Pattern (sections 3 and 4.4). A pattern starts with a node
  element and goes on with pairs of a relationship element and a node element. The builder
  step \<open>related\<close> leaves a partial pattern, which ends on a dangling relationship element,
  and \<open>to\<close> completes it; \<open>withLength\<close> refuses bounds with the minimum above the maximum.
\<close>

datatype direction = DirLeft | DirRight | DirUndirected

datatype quantifier = Exact nat | Bounds "nat option" "nat option" | AnyLength

record 'v nodeElement =
  nodeVariable :: identity
  nodeLabels :: "string list"
  nodeProperties :: "(string \<times> identity \<times> 'v) list"
  nodeWithoutVariable :: bool
  nodeWithoutLabels :: bool

record 'v relationshipElement =
  relVariable :: identity
  relType :: "string option"
  relDirection :: direction
  relLength :: "quantifier option"
  relProperties :: "(string \<times> identity \<times> 'v) list"
  relWithoutVariable :: bool
  relWithoutType :: bool

record 'v Pattern =
  firstNode :: "'v nodeElement"
  steps :: "('v relationshipElement \<times> 'v nodeElement) list"

record 'v PartialPattern =
  completed :: "'v Pattern"
  dangling :: "'v relationshipElement"

datatype 'v patternValue = Complete "'v Pattern" | Partial "'v PartialPattern"

definition newPattern :: "'v nodeElement \<Rightarrow> 'v Pattern" where
  "newPattern n = \<lparr> firstNode = n, steps = [] \<rparr>"

definition related :: "'v relationshipElement \<Rightarrow> 'v Pattern \<Rightarrow> 'v PartialPattern" where
  "related r p = \<lparr> completed = p, dangling = r \<rparr>"

definition to :: "'v nodeElement \<Rightarrow> 'v PartialPattern \<Rightarrow> 'v Pattern" where
  "to n pp = (completed pp)\<lparr> steps := steps (completed pp) @ [(dangling pp, n)] \<rparr>"

definition withDirection :: "direction \<Rightarrow> 'v PartialPattern \<Rightarrow> 'v PartialPattern" where
  "withDirection d pp = pp\<lparr> dangling := (dangling pp)\<lparr> relDirection := d \<rparr> \<rparr>"

fun invalidQuantifier :: "quantifier \<Rightarrow> bool" where
  "invalidQuantifier (Bounds (Some lo) (Some hi)) = (hi < lo)"
| "invalidQuantifier q = False"

definition withLength :: "quantifier \<Rightarrow> 'v PartialPattern \<Rightarrow> error + 'v PartialPattern" where
  "withLength q pp =
     (if invalidQuantifier q then Inl InvalidQuantifierError
      else Inr (pp\<lparr> dangling := (dangling pp)\<lparr> relLength := Some q \<rparr> \<rparr>))"

text \<open>Modelled from the spec: the rendering of a pattern (section 4.4).\<close>

fun quantifierText :: "quantifier option \<Rightarrow> string" where
  "quantifierText None = []"
| "quantifierText (Some (Exact n)) = ''*'' @ showNat n"
| "quantifierText (Some (Bounds (Some lo) (Some hi))) = ''*'' @ showNat lo @ ''..'' @ showNat hi"
| "quantifierText (Some (Bounds (Some lo) None)) = ''*'' @ showNat lo @ ''..''"
| "quantifierText (Some (Bounds None (Some hi))) = ''*..'' @ showNat hi"
| "quantifierText (Some (Bounds None None)) = ''*''"
| "quantifierText (Some AnyLength) = ''*''"

fun renderProperties ::
  "(string \<times> identity \<times> 'v) list \<Rightarrow> 'v Environment \<Rightarrow> error + piece list \<times> 'v Environment" where
  "renderProperties [] env = Inr ([], env)"
| "renderProperties ((k, i, v) # props) env =
     (case recordParameter env i v of Inl x \<Rightarrow> Inl x
      | Inr (n, env1) \<Rightarrow>
          (case renderProperties props env1 of Inl x \<Rightarrow> Inl x
           | Inr (ps, env2) \<Rightarrow>
               Inr ([Text (k @ '': $''), Name i n] @ (if props = [] then [] else [Text '', '']) @ ps,
                    env2)))"

definition propertyBlock ::
  "(string \<times> identity \<times> 'v) list \<Rightarrow> 'v Environment \<Rightarrow> error + piece list \<times> 'v Environment" where
  "propertyBlock props env =
     (if props = [] then Inr ([], env)
      else (case renderProperties props env of Inl x \<Rightarrow> Inl x
            | Inr (ps, env1) \<Rightarrow> Inr ([Text '' {''] @ ps @ [Text ''}''], env1)))"

definition variablePart ::
  "bool \<Rightarrow> identity \<Rightarrow> 'v Environment \<Rightarrow> error + piece list \<times> 'v Environment" where
  "variablePart suppressed i env =
     (if suppressed then Inr ([], env)
      else (case nameOf env i of Inl x \<Rightarrow> Inl x | Inr (n, env1) \<Rightarrow> Inr ([Name i n], env1)))"

text \<open>A variable met again in the same pattern is rendered bare: \<open>seen\<close> are the variables
  of the elements rendered before.\<close>

definition nodeLabelsText :: "identity list \<Rightarrow> 'v nodeElement \<Rightarrow> string" where
  "nodeLabelsText seen n =
     (if nodeVariable n \<in> set seen \<or> nodeWithoutLabels n then []
      else concat (map (\<lambda>l. '':'' @ l) (nodeLabels n)))"

definition renderNode ::
  "identity list \<Rightarrow> 'v nodeElement \<Rightarrow> 'v Environment \<Rightarrow> error + piece list \<times> 'v Environment" where
  "renderNode seen n env =
     (case variablePart (nodeWithoutVariable n) (nodeVariable n) env of Inl x \<Rightarrow> Inl x
      | Inr (name, env1) \<Rightarrow>
          (case propertyBlock (if nodeVariable n \<in> set seen then [] else nodeProperties n) env1 of
             Inl x \<Rightarrow> Inl x
           | Inr (props, env2) \<Rightarrow>
               Inr ([Text ''(''] @ name @ [Text (nodeLabelsText seen n)] @ props @ [Text '')''],
                    env2)))"

definition relTypeText :: "identity list \<Rightarrow> 'v relationshipElement \<Rightarrow> string" where
  "relTypeText seen r =
     (if relVariable r \<in> set seen \<or> relWithoutType r then []
      else (case relType r of None \<Rightarrow> [] | Some t \<Rightarrow> '':'' @ t))"

definition relOpening :: "'v relationshipElement \<Rightarrow> string" where
  "relOpening r = (if relDirection r = DirLeft then ''<-['' else ''-['')"

definition relClosing :: "'v relationshipElement \<Rightarrow> string" where
  "relClosing r = (if relDirection r = DirRight then '']->'' else '']-'')"

definition renderRelationship ::
  "identity list \<Rightarrow> 'v relationshipElement \<Rightarrow> 'v Environment
     \<Rightarrow> error + piece list \<times> 'v Environment" where
  "renderRelationship seen r env =
     (case variablePart (relWithoutVariable r) (relVariable r) env of Inl x \<Rightarrow> Inl x
      | Inr (name, env1) \<Rightarrow>
          (case propertyBlock (if relVariable r \<in> set seen then [] else relProperties r) env1 of
             Inl x \<Rightarrow> Inl x
           | Inr (props, env2) \<Rightarrow>
               Inr ([Text (relOpening r)] @ name
                      @ [Text (relTypeText seen r @ quantifierText (relLength r))]
                      @ props @ [Text (relClosing r)], env2)))"

fun renderSteps ::
  "identity list \<Rightarrow> ('v relationshipElement \<times> 'v nodeElement) list \<Rightarrow> 'v Environment
     \<Rightarrow> error + piece list \<times> 'v Environment" where
  "renderSteps seen [] env = Inr ([], env)"
| "renderSteps seen ((r, n) # rest) env =
     (case renderRelationship seen r env of Inl x \<Rightarrow> Inl x
      | Inr (ps, env1) \<Rightarrow>
          (case renderNode (relVariable r # seen) n env1 of Inl x \<Rightarrow> Inl x
           | Inr (qs, env2) \<Rightarrow>
               (case renderSteps (nodeVariable n # relVariable r # seen) rest env2 of
                  Inl x \<Rightarrow> Inl x
                | Inr (rs, env3) \<Rightarrow> Inr (ps @ qs @ rs, env3))))"

definition renderPattern ::
  "'v patternValue \<Rightarrow> 'v Environment \<Rightarrow> error + piece list \<times> 'v Environment" where
  "renderPattern pv env =
     (case pv of
        Partial pp \<Rightarrow> Inl IncompletePatternError
      | Complete p \<Rightarrow>
          (case renderNode [] (firstNode p) env of Inl x \<Rightarrow> Inl x
           | Inr (ps, env1) \<Rightarrow>
               (case renderSteps [nodeVariable (firstNode p)] (steps p) env1 of Inl x \<Rightarrow> Inl x
                | Inr (qs, env2) \<Rightarrow> Inr (ps @ qs, env2))))"

text \<open>
  Modelled from the spec: the AST node protocol (section 4.3) and the build entry point
  (section 4.5). A leaf is a reference to a variable or to a parameter, rendered by asking
  the environment, or a piece of syntax; a pattern is a node; a composite node renders its
  children from left to right and puts the results together.
\<close>

datatype 'v ast =
  Ref identity | Param identity 'v | Syntax string | PatternNode "'v patternValue"
  | Composite "'v ast list"

fun render :: "'v ast \<Rightarrow> 'v Environment \<Rightarrow> error + piece list \<times> 'v Environment"
  and render_all :: "'v ast list \<Rightarrow> 'v Environment \<Rightarrow> error + piece list \<times> 'v Environment" where
  "render (Ref i) env =
     (case nameOf env i of Inl x \<Rightarrow> Inl x | Inr (n, env1) \<Rightarrow> Inr ([Name i n], env1))"
| "render (Param i v) env =
     (case recordParameter env i v of Inl x \<Rightarrow> Inl x
      | Inr (n, env1) \<Rightarrow> Inr ([Text ''$'', Name i n], env1))"
| "render (Syntax s) env = Inr ([Text s], env)"
| "render (PatternNode pv) env = renderPattern pv env"
| "render (Composite children) env = render_all children env"
| "render_all [] env = Inr ([], env)"
| "render_all (c # cs) env =
     (case render c env of Inl x \<Rightarrow> Inl x
      | Inr (ps, env1) \<Rightarrow>
          (case render_all cs env1 of Inl x \<Rightarrow> Inl x
           | Inr (qs, env2) \<Rightarrow> Inr (ps @ qs, env2)))"

definition build ::
  "'v ast \<Rightarrow> string \<Rightarrow> (string \<times> 'v) list \<Rightarrow> error + string \<times> (string \<times> 'v) list" where
  "build root pre extraParameters =
     (case render root (freshEnvironment pre) of Inl x \<Rightarrow> Inl x
      | Inr (ps, env) \<Rightarrow>
          (case finalize env extraParameters of Inl x \<Rightarrow> Inl x
           | Inr parameters \<Rightarrow> Inr (text_of ps, parameters)))"

text \<open>
  Notions for the properties of the environment. \<open>nameShape\<close>: the name of a named
  identity is the one the caller gave, a generated name is the prefix, the class tag and a
  number. \<open>good\<close>: two different identities have the same name only when one of them is
  named and the other anonymous; every name has its shape; the number in a generated name
  is below the counter of its class. \<open>extends\<close>: the later environment has the prefix
  and the names of the earlier one. \<open>sound\<close>: from a good environment a rendering leads
  to a good environment that extends it and in which every name it has put out is the
  memoized name of its identity.
\<close>

definition nameShape :: "string \<Rightarrow> identity \<Rightarrow> string \<Rightarrow> bool" where
  "nameShape pre i n =
     (case explicitName i of Some x \<Rightarrow> n = x
      | None \<Rightarrow> (\<exists>k. n = pre @ classTag (idclass i) @ showNat k))"

definition good :: "'v Environment \<Rightarrow> bool" where
  "good env =
     ((\<forall>i j n. map_of (names env) i = Some n \<and> map_of (names env) j = Some n \<and> i \<noteq> j \<longrightarrow>
          (explicitName i = None) \<noteq> (explicitName j = None)) \<and>
      (\<forall>i n. map_of (names env) i = Some n \<longrightarrow> nameShape (envPrefix env) i n) \<and>
      (\<forall>i n. map_of (names env) i = Some n \<and> explicitName i = None \<longrightarrow>
          (\<exists>k<counterOf env (idclass i).
              n = envPrefix env @ classTag (idclass i) @ showNat k)))"

definition extends :: "'v Environment \<Rightarrow> 'v Environment \<Rightarrow> bool" where
  "extends env env' =
     (envPrefix env' = envPrefix env \<and>
      (\<forall>j m. map_of (names env) j = Some m \<longrightarrow> map_of (names env') j = Some m))"

definition sound :: "'v Environment \<Rightarrow> piece list \<Rightarrow> 'v Environment \<Rightarrow> bool" where
  "sound env ps env' =
     (good env \<longrightarrow>
        good env' \<and> extends env env' \<and>
        (\<forall>i n. Name i n \<in> set ps \<longrightarrow> map_of (names env') i = Some n))"

text \<open>
  Modelled from the spec: a freshly constructed equivalent tree is the same tree made of
  other identity objects. \<open>renameAst f t\<close> is \<open>t\<close> with the object number \<open>u\<close> of every
  identity replaced by \<open>f u\<close>; names given by the caller, classes, values and syntax stay.
  The same renaming is defined for the environment, for the pieces of a rendering and for a
  projection whose column expressions and alias references are such trees.
\<close>

fun renameIdentity :: "(nat \<Rightarrow> nat) \<Rightarrow> identity \<Rightarrow> identity" where
  "renameIdentity f (Identity u c x) = Identity (f u) c x"

definition renameProps ::
  "(nat \<Rightarrow> nat) \<Rightarrow> (string \<times> identity \<times> 'v) list \<Rightarrow> (string \<times> identity \<times> 'v) list" where
  "renameProps f props = map (\<lambda>(k, i, v). (k, renameIdentity f i, v)) props"

definition renameNode :: "(nat \<Rightarrow> nat) \<Rightarrow> 'v nodeElement \<Rightarrow> 'v nodeElement" where
  "renameNode f n =
     n\<lparr> nodeVariable := renameIdentity f (nodeVariable n),
        nodeProperties := renameProps f (nodeProperties n) \<rparr>"

definition renameRel :: "(nat \<Rightarrow> nat) \<Rightarrow> 'v relationshipElement \<Rightarrow> 'v relationshipElement" where
  "renameRel f r =
     r\<lparr> relVariable := renameIdentity f (relVariable r),
        relProperties := renameProps f (relProperties r) \<rparr>"

definition renameSteps ::
  "(nat \<Rightarrow> nat) \<Rightarrow> ('v relationshipElement \<times> 'v nodeElement) list
     \<Rightarrow> ('v relationshipElement \<times> 'v nodeElement) list" where
  "renameSteps f sts = map (\<lambda>(r, n). (renameRel f r, renameNode f n)) sts"

definition renamePattern :: "(nat \<Rightarrow> nat) \<Rightarrow> 'v Pattern \<Rightarrow> 'v Pattern" where
  "renamePattern f p =
     \<lparr> firstNode = renameNode f (firstNode p), steps = renameSteps f (steps p) \<rparr>"

fun renamePatternValue :: "(nat \<Rightarrow> nat) \<Rightarrow> 'v patternValue \<Rightarrow> 'v patternValue" where
  "renamePatternValue f (Complete p) = Complete (renamePattern f p)"
| "renamePatternValue f (Partial pp) =
     Partial \<lparr> completed = renamePattern f (completed pp), dangling = renameRel f (dangling pp) \<rparr>"

fun renameAst :: "(nat \<Rightarrow> nat) \<Rightarrow> 'v ast \<Rightarrow> 'v ast" where
  "renameAst f (Ref i) = Ref (renameIdentity f i)"
| "renameAst f (Param i v) = Param (renameIdentity f i) v"
| "renameAst f (Syntax s) = Syntax s"
| "renameAst f (PatternNode pv) = PatternNode (renamePatternValue f pv)"
| "renameAst f (Composite children) = Composite (map (renameAst f) children)"

definition renameEnv :: "(nat \<Rightarrow> nat) \<Rightarrow> 'v Environment \<Rightarrow> 'v Environment" where
  "renameEnv f env = env\<lparr> names := map (\<lambda>(i, n). (renameIdentity f i, n)) (names env) \<rparr>"

fun renamePiece :: "(nat \<Rightarrow> nat) \<Rightarrow> piece \<Rightarrow> piece" where
  "renamePiece f (Text s) = Text s"
| "renamePiece f (Name i n) = Name (renameIdentity f i) n"

definition renamePieces ::
  "(nat \<Rightarrow> nat) \<Rightarrow> error + piece list \<times> 'v Environment \<Rightarrow> error + piece list \<times> 'v Environment" where
  "renamePieces f r =
     (case r of Inl x \<Rightarrow> Inl x | Inr (ps, env) \<Rightarrow> Inr (map (renamePiece f) ps, renameEnv f env))"

definition renameNamed ::
  "(nat \<Rightarrow> nat) \<Rightarrow> error + string \<times> 'v Environment \<Rightarrow> error + string \<times> 'v Environment" where
  "renameNamed f r = (case r of Inl x \<Rightarrow> Inl x | Inr (n, env) \<Rightarrow> Inr (n, renameEnv f env))"

text \<open>The rendering of a tree as the expression (or the alias reference) of a projection
  column: the text of its pieces.\<close>

definition astCypher :: "('v ast, 'v Environment, error) renderer" where
  "astCypher e env =
     (case render e env of Inl x \<Rightarrow> Inl x | Inr (ps, env1) \<Rightarrow> Inr (text_of ps, env1))"

fun renameAlias :: "(nat \<Rightarrow> nat) \<Rightarrow> 'v ast Alias \<Rightarrow> 'v ast Alias" where
  "renameAlias f (AliasString s) = AliasString s"
| "renameAlias f (AliasRef r) = AliasRef (renameAst f r)"

fun renameColumn ::
  "(nat \<Rightarrow> nat) \<Rightarrow> ('v ast, 'v ast) ProjectionColumn \<Rightarrow> ('v ast, 'v ast) ProjectionColumn" where
  "renameColumn f (Plain e) = Plain (renameAst f e)"
| "renameColumn f (Aliased e a) = Aliased (renameAst f e) (renameAlias f a)"

definition renameProjection ::
  "(nat \<Rightarrow> nat) \<Rightarrow> ('v ast, 'v ast) Projection \<Rightarrow> ('v ast, 'v ast) Projection" where
  "renameProjection f this =
     \<lparr> columns = map (renameColumn f) (columns this), isStar = isStar this \<rparr>"

section \<open>Facts about the regular expressions\<close>

lemma strip_prefix_Some_iff: "strip_prefix p s = Some r \<longleftrightarrow> s = p @ r"
  by (induction p s rule: strip_prefix.induct) auto


lemma isSpace_chars: "isSpace c \<Longrightarrow> c \<noteq> CHR ''.'' \<and> c \<noteq> CHR ''t'' \<and> c \<noteq> CHR ''d'' \<and> c \<noteq> CHR '')''"
  by (auto simp: isSpace_def)

lemma isDigit_chars: "isDigit c \<Longrightarrow> c \<noteq> CHR ''.'' \<and> c \<noteq> CHR ''d'' \<and> c \<noteq> CHR '')''"
  by (auto simp: isDigit_def)

lemma numbered_access_SomeD:
  assumes "numbered_access key prp s = Some (n, num)"
  shows "\<exists>ws r. s = key @ ws @ ''this'' @ num @ prp @ r \<and> (\<forall>c\<in>set ws. isSpace c) \<and> num \<noteq> []
           \<and> (\<forall>c\<in>set num. isDigit c) \<and> n = length (key @ ws @ ''this'' @ num @ prp)"
proof -
  from assms obtain r1 r2 r3 where
    k: "strip_prefix key s = Some r1" and
    t: "strip_prefix ''this'' (dropWhile isSpace r1) = Some r2" and
    d: "takeWhile isDigit r2 \<noteq> []" and
    p: "strip_prefix prp (dropWhile isDigit r2) = Some r3" and
    n: "n = length s - length r3" and num: "num = takeWhile isDigit r2"
    by (auto simp: numbered_access_def split: option.splits if_splits)
  have s: "s = key @ r1" using k by (simp add: strip_prefix_Some_iff)
  have r1: "r1 = takeWhile isSpace r1 @ ''this'' @ r2"
    using t takeWhile_dropWhile_id [of isSpace r1] by (simp add: strip_prefix_Some_iff)
  have r2: "r2 = num @ prp @ r3"
    using p num takeWhile_dropWhile_id [of isDigit r2] by (simp add: strip_prefix_Some_iff)
  have "s = key @ takeWhile isSpace r1 @ ''this'' @ num @ prp @ r3"
    using s r1 r2 by metis
  moreover have "\<forall>c\<in>set (takeWhile isSpace r1). isSpace c" by (auto dest: set_takeWhileD)
  moreover have "\<forall>c\<in>set num. isDigit c" using num by (auto dest: set_takeWhileD)
  moreover have "n = length (key @ takeWhile isSpace r1 @ ''this'' @ num @ prp)"
    using n calculation(1) by (metis add_diff_cancel_right' append.assoc length_append)
  ultimately show ?thesis using d num by blast
qed

lemma numbered_access_SomeI:
  assumes "\<forall>c\<in>set ws. isSpace c" "num \<noteq> []" "\<forall>c\<in>set num. isDigit c" "prp \<noteq> []" "\<not> isDigit (hd prp)"
  shows "numbered_access key prp (key @ ws @ ''this'' @ num @ prp @ r)
           = Some (length (key @ ws @ ''this'' @ num @ prp), num)"
proof -
  have 1: "strip_prefix key (key @ ws @ ''this'' @ num @ prp @ r) = Some (ws @ ''this'' @ num @ prp @ r)"
    by (simp add: strip_prefix_Some_iff)
  have 2: "dropWhile isSpace (ws @ ''this'' @ num @ prp @ r) = ''this'' @ num @ prp @ r"
    using assms(1) by (simp add: dropWhile_append3 isSpace_def)
  have 3: "strip_prefix ''this'' (''this'' @ num @ prp @ r) = Some (num @ prp @ r)"
    by (simp only: strip_prefix_Some_iff)
  obtain p ps where pp: "prp = p # ps" "\<not> isDigit p" using assms(4) assms(5) by (cases "prp") auto
  have 4: "takeWhile isDigit (num @ prp @ r) = num" "dropWhile isDigit (num @ prp @ r) = prp @ r"
    using assms(3) pp by (simp_all add: takeWhile_append2 dropWhile_append3)
  have 5: "strip_prefix prp (prp @ r) = Some r" by (simp add: strip_prefix_Some_iff)
  show ?thesis
    unfolding numbered_access_def 1 option.case 2 3 4 5 using assms(2) by simp
qed

lemma access_wf_propD: "access_wf key prp \<Longrightarrow> \<exists>p. prp = CHR ''.'' # p \<and> CHR ''.'' \<notin> set p"
  by (cases "prp") (auto simp: access_wf_def)

lemma access_regex_SomeD:
  assumes wf: "access_wf key prp" and m: "access_regex key prp s = Some (n, g1, g2)"
  shows "\<exists>A r. s = A @ prp @ r \<and> n = length A + length prp \<and> CHR ''.'' \<notin> set A \<and> g1 = A @ prp \<and>
            (case g2 of None \<Rightarrow> A = []
             | Some num \<Rightarrow> num \<noteq> [] \<and> (\<forall>c\<in>set num. isDigit c) \<and>
                 (\<exists>ws. A = key @ ws @ ''this'' @ num \<and> (\<forall>c\<in>set ws. isSpace c)))"
proof (cases "numbered_access key prp s")
  case None
  with m have c: "(case strip_prefix prp s of Some r \<Rightarrow> Some (length prp, prp, None) | None \<Rightarrow> None)
                    = Some (n, g1, g2)"
    by (simp add: access_regex_def)
  then have "\<exists>r. strip_prefix prp s = Some r \<and> n = length prp \<and> g1 = prp \<and> g2 = None"
    by (cases "strip_prefix prp s") auto
  then obtain r where "strip_prefix prp s = Some r" "n = length prp" "g1 = prp" "g2 = None"
    by blast
  then show ?thesis
    by (intro exI [of _ "[]"] exI [of _ r]) (simp add: strip_prefix_Some_iff)
next
  case (Some a)
  then obtain n' num where a: "numbered_access key prp s = Some (n', num)" by (cases a) auto
  with m have g: "n = n'" "g1 = take n s" "g2 = Some num" by (auto simp: access_regex_def)
  from numbered_access_SomeD [OF a] obtain ws r where
    s: "s = key @ ws @ ''this'' @ num @ prp @ r" and ws: "\<forall>c\<in>set ws. isSpace c" and
    num: "num \<noteq> []" "\<forall>c\<in>set num. isDigit c" and n': "n' = length (key @ ws @ ''this'' @ num @ prp)"
    by blast
  let ?A = "key @ ws @ ''this'' @ num"
  have "s = ?A @ prp @ r" using s by simp
  moreover have "n = length ?A + length prp" using g n' by simp
  moreover have "CHR ''.'' \<notin> set ?A"
    using wf ws num by (auto simp: access_wf_def dest: isSpace_chars isDigit_chars)
  moreover have "g1 = ?A @ prp"
  proof -
    define X where "X = key @ ws @ ''this'' @ num @ prp"
    have "s = X @ r" "n = length X" using s g(1) n' by (simp_all add: X_def)
    then have "take n s = X" by simp
    then show ?thesis using g(2) by (simp add: X_def)
  qed
  ultimately show ?thesis using g(3) num ws by (intro exI [of _ ?A] exI [of _ r]) auto
qed

lemma dot_position:
  assumes "pre @ CHR ''.'' # rest = A @ (CHR ''.'' # p) @ r"
    and "CHR ''.'' \<notin> set A" "CHR ''.'' \<notin> set p" "length pre < length A + Suc (length p)"
  shows "pre = A \<and> rest = p @ r"
proof -
  let ?s = "pre @ CHR ''.'' # rest"
  have dot: "?s ! length pre = CHR ''.''" by (simp add: nth_append)
  have "length pre = length A"
  proof (rule ccontr)
    assume ne: "length pre \<noteq> length A"
    show False
    proof (cases "length pre < length A")
      case True
      then have "(A @ (CHR ''.'' # p) @ r) ! length pre = A ! length pre" by (simp add: nth_append)
      with dot assms(1) have "A ! length pre = CHR ''.''" by metis
      with True assms(2) show False by (metis nth_mem)
    next
      case False
      with ne have gt: "length A < length pre" by simp
      define k where "k = length pre - length A - 1"
      have k: "k < length p" "length pre = length A + Suc k" using gt assms(4) by (auto simp: k_def)
      have "(A @ (CHR ''.'' # p) @ r) ! length pre = p ! k"
        using k by (simp add: nth_append)
      with dot assms(1) have "p ! k = CHR ''.''" by metis
      with k(1) assms(3) show False by (metis nth_mem)
    qed
  qed
  with assms(1) show ?thesis by simp
qed

lemma numbered_access_dot_None:
  assumes "access_wf key prp"
  shows "numbered_access key prp (CHR ''.'' # t) = None"
proof -
  obtain k ks where "key = k # ks" "k \<noteq> CHR ''.''"
    using assms by (cases key) (auto simp: access_wf_def)
  then show ?thesis by (simp add: numbered_access_def)
qed

lemma access_regex_at_prop:
  assumes "access_wf key prp"
  shows "access_regex key prp (prp @ post) = Some (length prp, prp, None)"
proof -
  obtain p where p: "prp = CHR ''.'' # p" using access_wf_propD [OF assms] by blast
  have "numbered_access key prp (prp @ post) = None"
    using numbered_access_dot_None [OF assms] by (simp add: p)
  moreover have "strip_prefix prp (prp @ post) = Some post" by (simp add: strip_prefix_Some_iff)
  ultimately show ?thesis by (simp add: access_regex_def)
qed

lemma replace_global_at_prop:
  assumes wf: "access_wf key prp"
    and f: "\<And>M g1 g2. g1 \<noteq> [] \<Longrightarrow> f M (g1, g2) = hdr @ (case g2 of Some n \<Rightarrow> n | None \<Rightarrow> []) @ '')''"
  shows "replace_global (access_regex key prp) f (prp @ post)
           = hdr @ '')'' @ replace_global (access_regex key prp) f post"
proof -
  obtain p where p: "prp = CHR ''.'' # p" using access_wf_propD [OF wf] by blast
  have m: "access_regex key prp (CHR ''.'' # p @ post) = Some (length prp, prp, None)"
    using access_regex_at_prop [OF wf, of post] by (simp add: p)
  have "replace_global (access_regex key prp) f (CHR ''.'' # p @ post)
          = f (take (length prp) (CHR ''.'' # p @ post)) (prp, None)
            @ replace_global (access_regex key prp) f (drop (length prp - 1) (p @ post))"
    by (simp add: m)
  moreover have "drop (length prp - 1) (p @ post) = post" by (simp add: p)
  moreover have "f (take (length prp) (CHR ''.'' # p @ post)) (prp, None) = hdr @ '')''"
    using f [of "prp" _ None] by (simp add: p)
  ultimately show ?thesis by (simp add: p)
qed

lemma occurrence_replaced:
  assumes wf: "access_wf key prp"
    and f: "\<And>M g1 g2. g1 \<noteq> [] \<Longrightarrow> f M (g1, g2) = hdr @ (case g2 of Some n \<Rightarrow> n | None \<Rightarrow> []) @ '')''"
  shows "\<exists>out num. replace_global (access_regex key prp) f (pre @ prp @ post)
           = out @ hdr @ num @ '')'' @ replace_global (access_regex key prp) f post
         \<and> (num = [] \<or> ((\<forall>c\<in>set num. isDigit c)
               \<and> (\<exists>a ws. pre = a @ key @ ws @ ''this'' @ num \<and> (\<forall>c\<in>set ws. isSpace c))))"
proof (induction "length pre" arbitrary: pre rule: less_induct)
  case less
  let ?R = "replace_global (access_regex key prp) f"
  obtain p where p: "prp = CHR ''.'' # p" "CHR ''.'' \<notin> set p"
    using access_wf_propD [OF wf] by blast
  show ?case
  proof (cases pre)
    case Nil
    have "?R (pre @ prp @ post) = [] @ hdr @ [] @ '')'' @ ?R post"
      using replace_global_at_prop [OF wf f, where post = post] Nil by simp
    then show ?thesis by blast
  next
    case (Cons c cs)
    show ?thesis
    proof (cases "access_regex key prp (pre @ prp @ post)")
      case None
      then have step: "?R (pre @ prp @ post) = c # ?R (cs @ prp @ post)"
        by (simp add: Cons)
      have "length cs < length pre" by (simp add: Cons)
      from less [OF this] obtain out num where
        ih: "?R (cs @ prp @ post) = out @ hdr @ num @ '')'' @ ?R post"
        and sh: "num = [] \<or> ((\<forall>c\<in>set num. isDigit c)
               \<and> (\<exists>a ws. cs = a @ key @ ws @ ''this'' @ num \<and> (\<forall>c\<in>set ws. isSpace c)))"
        by blast
      have 1: "?R (pre @ prp @ post) = (c # out) @ hdr @ num @ '')'' @ ?R post"
        using step ih by simp
      have 2: "num = [] \<or> ((\<forall>c\<in>set num. isDigit c)
               \<and> (\<exists>a ws. pre = a @ key @ ws @ ''this'' @ num \<and> (\<forall>c\<in>set ws. isSpace c)))"
      proof (cases "num = []")
        case True then show ?thesis by simp
      next
        case False
        with sh obtain a ws where "cs = a @ key @ ws @ ''this'' @ num" "\<forall>c\<in>set ws. isSpace c"
          "\<forall>c\<in>set num. isDigit c" by blast
        then have "pre = (c # a) @ key @ ws @ ''this'' @ num" by (simp add: Cons)
        then show ?thesis using \<open>\<forall>c\<in>set ws. isSpace c\<close> \<open>\<forall>c\<in>set num. isDigit c\<close> by blast
      qed
      from 1 2 show ?thesis by blast
    next
      case (Some a)
      then obtain n g1 g2 where m: "access_regex key prp (pre @ prp @ post) = Some (n, g1, g2)"
        by (cases a) auto
      from access_regex_SomeD [OF wf m] obtain A r where
        s: "pre @ prp @ post = A @ prp @ r" and n: "n = length A + length prp"
        and A: "CHR ''.'' \<notin> set A" and g1: "g1 = A @ prp"
        and g2: "(case g2 of None \<Rightarrow> A = []
             | Some num \<Rightarrow> num \<noteq> [] \<and> (\<forall>c\<in>set num. isDigit c) \<and>
                 (\<exists>ws. A = key @ ws @ ''this'' @ num \<and> (\<forall>c\<in>set ws. isSpace c)))"
        by blast
      have g1ne: "g1 \<noteq> []" using g1 p by simp
      have n1: "1 \<le> n" using n p by simp
      have step: "?R (pre @ prp @ post)
           = hdr @ (case g2 of Some n \<Rightarrow> n | None \<Rightarrow> []) @ '')'' @ ?R (drop (n - 1) (cs @ prp @ post))"
        using m f [OF g1ne] by (simp add: Cons)
      have dr: "drop (n - 1) (cs @ prp @ post) = drop n (pre @ prp @ post)"
        using n1 by (cases n) (simp_all add: Cons)
      show ?thesis
      proof (cases "n \<le> length pre")
        case True
        have "drop n (pre @ prp @ post) = drop n pre @ prp @ post" using True by simp
        moreover have "length (drop n pre) < length pre" using n1 Cons by simp
        from less [OF this] obtain out num where
          ih: "?R (drop n pre @ prp @ post) = out @ hdr @ num @ '')'' @ ?R post"
          and sh: "num = [] \<or> ((\<forall>c\<in>set num. isDigit c)
               \<and> (\<exists>a ws. drop n pre = a @ key @ ws @ ''this'' @ num \<and> (\<forall>c\<in>set ws. isSpace c)))"
          by blast
        ultimately have 1: "?R (pre @ prp @ post)
            = (hdr @ (case g2 of Some n \<Rightarrow> n | None \<Rightarrow> []) @ '')'' @ out) @ hdr @ num @ '')'' @ ?R post"
          using step dr by simp
        have 2: "num = [] \<or> ((\<forall>c\<in>set num. isDigit c)
               \<and> (\<exists>a ws. pre = a @ key @ ws @ ''this'' @ num \<and> (\<forall>c\<in>set ws. isSpace c)))"
        proof (cases "num = []")
          case True then show ?thesis by simp
        next
          case False
          with sh obtain a ws where a: "drop n pre = a @ key @ ws @ ''this'' @ num"
            "\<forall>c\<in>set ws. isSpace c" "\<forall>c\<in>set num. isDigit c" by blast
          have "pre = take n pre @ drop n pre" by simp
          then have "pre = (take n pre @ a) @ key @ ws @ ''this'' @ num" using a(1) by simp
          then show ?thesis using a(2,3) by blast
        qed
        from 1 2 show ?thesis by blast
      next
        case False
        then have lt: "length pre < length A + Suc (length p)" using n p by simp
        have s': "pre @ CHR ''.'' # (p @ post) = A @ (CHR ''.'' # p) @ r"
          using s by (simp only: p(1) append.simps)
        from dot_position [OF s' A p(2) lt] have eq: "pre = A \<and> post = r" by simp
        then have "drop n (pre @ prp @ post) = post" using n by simp
        moreover obtain num where num: "g2 = Some num" using g2 eq Cons by (cases g2) auto
        ultimately have 1: "?R (pre @ prp @ post) = [] @ hdr @ num @ '')'' @ ?R post"
          using step dr by simp
        have "(\<forall>c\<in>set num. isDigit c) \<and>
                 (\<exists>ws. pre = [] @ key @ ws @ ''this'' @ num \<and> (\<forall>c\<in>set ws. isSpace c))"
          using g2 num eq by simp
        with 1 show ?thesis by blast
      qed
    qed
  qed
qed

lemma access_regex_extend:
  assumes wf: "access_wf key prp" and m: "access_regex key prp s = Some (n, g1, g2)"
  shows "access_regex key prp (s @ b) = Some (n, g1, g2)"
proof (cases "numbered_access key prp s")
  case None
  with m have c: "(case strip_prefix prp s of Some r \<Rightarrow> Some (length prp, prp, None) | None \<Rightarrow> None)
                    = Some (n, g1, g2)"
    by (simp add: access_regex_def)
  then have "\<exists>r. strip_prefix prp s = Some r \<and> n = length prp \<and> g1 = prp \<and> g2 = None"
    by (cases "strip_prefix prp s") auto
  then obtain r where r: "s = prp @ r" and g: "n = length prp" "g1 = prp" "g2 = None"
    by (auto simp: strip_prefix_Some_iff)
  have "access_regex key prp (prp @ (r @ b)) = Some (length prp, prp, None)"
    by (rule access_regex_at_prop [OF wf])
  then show ?thesis using r g by simp
next
  case (Some a)
  then obtain n' num where a: "numbered_access key prp s = Some (n', num)" by (cases a) auto
  with m have g: "n = n'" "g1 = take n s" "g2 = Some num" by (auto simp: access_regex_def)
  from numbered_access_SomeD [OF a] obtain ws r where
    s: "s = key @ ws @ ''this'' @ num @ prp @ r" and ws: "\<forall>c\<in>set ws. isSpace c" and
    num: "num \<noteq> []" "\<forall>c\<in>set num. isDigit c" and n': "n' = length (key @ ws @ ''this'' @ num @ prp)"
    by blast
  obtain p where p: "prp = CHR ''.'' # p" using access_wf_propD [OF wf] by blast
  have nd: "prp \<noteq> []" "\<not> isDigit (hd prp)" using p by (simp_all add: isDigit_def)
  have "numbered_access key prp (key @ ws @ ''this'' @ num @ prp @ (r @ b)) = Some (n', num)"
    using numbered_access_SomeI [OF ws num nd, of key "r @ b"] n' by simp
  moreover have "key @ ws @ ''this'' @ num @ prp @ (r @ b) = s @ b" using s by simp
  ultimately have "numbered_access key prp (s @ b) = Some (n', num)" by (simp only:)
  moreover have "n \<le> length s" using g(1) n' s by simp
  ultimately show ?thesis using g by (simp add: access_regex_def)
qed

lemma access_regex_restrict:
  assumes wf: "access_wf key prp" and m: "access_regex key prp (s @ b) = Some (n, g1, g2)"
    and le: "n \<le> length s"
  shows "access_regex key prp s = Some (n, g1, g2)"
proof -
  obtain p where p: "prp = CHR ''.'' # p" using access_wf_propD [OF wf] by blast
  from access_regex_SomeD [OF wf m] obtain A r where
    sb: "s @ b = A @ prp @ r" and n: "n = length A + length prp" and g1: "g1 = A @ prp"
    and g2: "(case g2 of None \<Rightarrow> A = []
             | Some num \<Rightarrow> num \<noteq> [] \<and> (\<forall>c\<in>set num. isDigit c) \<and>
                 (\<exists>ws. A = key @ ws @ ''this'' @ num \<and> (\<forall>c\<in>set ws. isSpace c)))"
    by blast
  have "take n (s @ b) = A @ prp" using sb n by simp
  then have tk: "take n s = A @ prp" using le by simp
  then have s: "s = A @ prp @ drop n s" by (metis append.assoc append_take_drop_id)
  show ?thesis
  proof (cases g2)
    case None
    then have "A = []" using g2 by simp
    then have "access_regex key prp s = Some (length prp, prp, None)"
      using access_regex_at_prop [OF wf, of "drop n s"] s by simp
    then show ?thesis using None n g1 \<open>A = []\<close> by simp
  next
    case (Some num)
    then obtain ws where A: "A = key @ ws @ ''this'' @ num" and ws: "\<forall>c\<in>set ws. isSpace c"
      and num: "num \<noteq> []" "\<forall>c\<in>set num. isDigit c" using g2 by auto
    have nd: "prp \<noteq> []" "\<not> isDigit (hd prp)" using p by (simp_all add: isDigit_def)
    have "numbered_access key prp (key @ ws @ ''this'' @ num @ prp @ drop n s) = Some (n, num)"
      using numbered_access_SomeI [OF ws num nd, of key "drop n s"] n A by simp
    moreover have "key @ ws @ ''this'' @ num @ prp @ drop n s = s" using s A by simp
    ultimately have "numbered_access key prp s = Some (n, num)" by (simp only:)
    then show ?thesis using Some tk g1 by (simp add: access_regex_def)
  qed
qed

lemma replace_global_append:
  assumes some: "\<And>s n g. s \<noteq> [] \<Longrightarrow> suffix s a \<Longrightarrow> m (s @ b) = Some (n, g)
                    \<Longrightarrow> n \<le> length s \<and> m s = Some (n, g)"
    and none: "\<And>s. s \<noteq> [] \<Longrightarrow> suffix s a \<Longrightarrow> m (s @ b) = None \<Longrightarrow> m s = None"
  shows "replace_global m f (a @ b) = replace_global m f a @ replace_global m f b"
  using assms
proof (induction "length a" arbitrary: a rule: less_induct)
  case less
  show ?case
  proof (cases a)
    case Nil
    then show ?thesis by simp
  next
    case (Cons c cs)
    have sufcs: "\<And>t. suffix t cs \<Longrightarrow> suffix t a" by (simp add: Cons suffix_Cons)
    show ?thesis
    proof (cases "m (a @ b)")
      case None
      then have ma: "m a = None" using less.prems(2) [of a] Cons by simp
      have "replace_global m f (cs @ b) = replace_global m f cs @ replace_global m f b"
      proof (rule less.hyps)
        show "length cs < length a" by (simp add: Cons)
      next
        fix s n g assume "s \<noteq> []" "suffix s cs" "m (s @ b) = Some (n, g)"
        then show "n \<le> length s \<and> m s = Some (n, g)" using less.prems(1) sufcs by blast
      next
        fix s assume "s \<noteq> []" "suffix s cs" "m (s @ b) = None"
        then show "m s = None" using less.prems(2) sufcs by blast
      qed
      then show ?thesis using None ma by (simp add: Cons)
    next
      case (Some r)
      then obtain n g where r: "m (a @ b) = Some (n, g)" by (cases r) auto
      then have ma: "n \<le> length a" "m a = Some (n, g)" using less.prems(1) [of a n g] Cons by simp_all
      let ?d = "drop (n - 1) cs"
      have sufd: "\<And>t. suffix t ?d \<Longrightarrow> suffix t a"
        by (meson sufcs suffix_drop suffix_order.trans)
      have "replace_global m f (?d @ b) = replace_global m f ?d @ replace_global m f b"
      proof (rule less.hyps)
        show "length ?d < length a" by (simp add: Cons)
      next
        fix s n g assume "s \<noteq> []" "suffix s ?d" "m (s @ b) = Some (n, g)"
        then show "n \<le> length s \<and> m s = Some (n, g)" using less.prems(1) sufd by blast
      next
        fix s assume "s \<noteq> []" "suffix s ?d" "m (s @ b) = None"
        then show "m s = None" using less.prems(2) sufd by blast
      qed
      moreover have "drop (n - 1) (cs @ b) = ?d @ b" using ma(1) by (simp add: Cons)
      moreover have "take n (c # cs @ b) = take n (c # cs)" using ma(1) by (cases n) (simp_all add: Cons)
      ultimately show ?thesis using r ma(2) by (simp add: Cons)
    qed
  qed
qed

lemma replace_global_skip:
  assumes "\<And>s. s \<noteq> [] \<Longrightarrow> suffix s a \<Longrightarrow> m (s @ b) = None"
  shows "replace_global m f (a @ b) = a @ replace_global m f b"
  using assms
proof (induction a)
  case Nil
  then show ?case by simp
next
  case (Cons c cs)
  have "m ((c # cs) @ b) = None" using Cons.prems [of "c # cs"] by simp
  moreover have "replace_global m f (cs @ b) = cs @ replace_global m f b"
    using Cons.prems by (intro Cons.IH) (simp add: suffix_Cons)
  ultimately show ?case by simp
qed

lemma takeWhile_run: "\<forall>c\<in>set xs. P c \<Longrightarrow> \<not> P y \<Longrightarrow> takeWhile P (xs @ y # ys) = xs"
  by (induction xs) auto

lemma dropWhile_run: "\<forall>c\<in>set xs. P c \<Longrightarrow> \<not> P y \<Longrightarrow> dropWhile P (xs @ y # ys) = y # ys"
  by (induction xs) auto

lemma ends_with_numberedI:
  assumes key: "key \<noteq> []" "\<not> isSpace (last key)"
    and ws: "\<forall>c\<in>set ws. isSpace c" and num: "num \<noteq> []" "\<forall>c\<in>set num. isDigit c"
  shows "ends_with_numbered key (a @ key @ ws @ ''this'' @ num)"
proof -
  let ?r = "rev (a @ key @ ws @ ''this'' @ num)"
  have r: "?r = rev num @ ''siht'' @ rev ws @ rev key @ rev a" by simp
  have nd: "\<not> isDigit CHR ''s''" by (simp add: isDigit_def)
  have dn: "\<forall>c\<in>set (rev num). isDigit c" using num(2) by simp
  have 1: "takeWhile isDigit ?r = rev num"
    unfolding r using takeWhile_run [OF dn nd] by simp
  have 2: "dropWhile isDigit ?r = ''siht'' @ rev ws @ rev key @ rev a"
    unfolding r using dropWhile_run [OF dn nd] by simp
  have 3: "strip_prefix (rev ''this'') (''siht'' @ rev ws @ rev key @ rev a) = Some (rev ws @ rev key @ rev a)"
    by (simp add: strip_prefix_Some_iff)
  obtain k ks where k: "rev key = k # ks" "\<not> isSpace k"
    using key by (cases "rev key") (auto simp: last_rev [symmetric] simp del: last_rev)
  have sw: "\<forall>c\<in>set (rev ws). isSpace c" using ws by simp
  have 4: "dropWhile isSpace (rev ws @ rev key @ rev a) = rev key @ rev a"
    using dropWhile_run [OF sw k(2)] k(1) by simp
  have 5: "strip_prefix (rev key) (rev key @ rev a) \<noteq> None"
    by (simp add: strip_prefix_Some_iff)
  show ?thesis
    unfolding ends_with_numbered_def 1 2 3 using num(1) 4 5 by simp
qed

lemma ends_with_numberedD:
  assumes "ends_with_numbered key pre"
  shows "\<exists>a ws num. pre = a @ key @ ws @ ''this'' @ num \<and> (\<forall>c\<in>set ws. isSpace c)
            \<and> num \<noteq> [] \<and> (\<forall>c\<in>set num. isDigit c)"
proof -
  let ?D = "takeWhile isDigit (rev pre)"
  from assms obtain r r' where D: "?D \<noteq> []"
    and t: "strip_prefix (rev ''this'') (dropWhile isDigit (rev pre)) = Some r"
    and k: "strip_prefix (rev key) (dropWhile isSpace r) = Some r'"
    by (auto simp: ends_with_numbered_def split: option.splits)
  have 1: "rev pre = ?D @ rev ''this'' @ r"
    using t takeWhile_dropWhile_id [of isDigit "rev pre"] by (simp add: strip_prefix_Some_iff)
  have 2: "r = takeWhile isSpace r @ rev key @ r'"
    using k takeWhile_dropWhile_id [of isSpace r] by (simp add: strip_prefix_Some_iff)
  have "rev pre = ?D @ rev ''this'' @ takeWhile isSpace r @ rev key @ r'"
    using 1 2 by metis
  then have "rev (rev pre) = rev (?D @ rev ''this'' @ takeWhile isSpace r @ rev key @ r')"
    by (simp only:)
  then have "pre = rev r' @ key @ rev (takeWhile isSpace r) @ ''this'' @ rev ?D" by simp
  moreover have "\<forall>c\<in>set (rev (takeWhile isSpace r)). isSpace c" by (auto dest: set_takeWhileD)
  moreover have "\<forall>c\<in>set (rev ?D). isDigit c" by (auto dest: set_takeWhileD)
  moreover have "rev ?D \<noteq> []" using D by simp
  ultimately show ?thesis by blast
qed

lemma access_wf_keyD: "access_wf key prp \<Longrightarrow> key \<noteq> [] \<and> \<not> isSpace (last key)"
  by (simp add: access_wf_def)

text \<open>No match of the expression runs from a text not ending in the numbered shape into a
  property that follows it.\<close>

lemma access_regex_before_prop:
  assumes wf: "access_wf key prp" and sh: "\<not> ends_with_numbered key pre"
    and suf: "suffix s pre" and ne: "s \<noteq> []"
    and m: "access_regex key prp (s @ prp @ post) = Some (n, g1, g2)"
  shows "n \<le> length s"
proof (rule ccontr)
  assume "\<not> n \<le> length s"
  obtain p where p: "prp = CHR ''.'' # p" "CHR ''.'' \<notin> set p"
    using access_wf_propD [OF wf] by blast
  from access_regex_SomeD [OF wf m] obtain A r where
    sb: "s @ prp @ post = A @ prp @ r" and n: "n = length A + length prp"
    and A: "CHR ''.'' \<notin> set A"
    and g2: "(case g2 of None \<Rightarrow> A = []
             | Some num \<Rightarrow> num \<noteq> [] \<and> (\<forall>c\<in>set num. isDigit c) \<and>
                 (\<exists>ws. A = key @ ws @ ''this'' @ num \<and> (\<forall>c\<in>set ws. isSpace c)))"
    by blast
  have lt: "length s < length A + Suc (length p)" using \<open>\<not> n \<le> length s\<close> n p by simp
  have s': "s @ CHR ''.'' # (p @ post) = A @ (CHR ''.'' # p) @ r"
    using sb by (simp only: p(1) append.simps)
  from dot_position [OF s' A p(2) lt] have eq: "s = A" by simp
  obtain num where num: "g2 = Some num" using g2 eq ne by (cases g2) auto
  then obtain ws where "s = key @ ws @ ''this'' @ num" "\<forall>c\<in>set ws. isSpace c"
    "num \<noteq> []" "\<forall>c\<in>set num. isDigit c" using g2 eq by auto
  moreover obtain a where "pre = a @ s" using suf by (auto simp: suffix_def)
  ultimately have "ends_with_numbered key pre"
    using ends_with_numberedI [of key ws num a] access_wf_keyD [OF wf] by simp
  with sh show False by simp
qed

lemma bare_occurrence:
  assumes wf: "access_wf key prp"
    and f: "\<And>M g1 g2. g1 \<noteq> [] \<Longrightarrow> f M (g1, g2) = hdr @ (case g2 of Some n \<Rightarrow> n | None \<Rightarrow> []) @ '')''"
    and sh: "\<not> ends_with_numbered key pre"
  shows "replace_global (access_regex key prp) f (pre @ prp @ post)
           = replace_global (access_regex key prp) f pre @ hdr @ '')''
             @ replace_global (access_regex key prp) f post"
proof -
  let ?m = "access_regex key prp"
  have "replace_global ?m f (pre @ (prp @ post))
          = replace_global ?m f pre @ replace_global ?m f (prp @ post)"
  proof (rule replace_global_append)
    fix s n g assume s: "s \<noteq> []" "suffix s pre" and m: "?m (s @ prp @ post) = Some (n, g)"
    obtain g1 g2 where g: "g = (g1, g2)" by (cases g)
    have "n \<le> length s" using access_regex_before_prop [OF wf sh s(2) s(1)] m g by blast
    moreover from this have "?m s = Some (n, g)"
      using access_regex_restrict [OF wf, of s "prp @ post" n g1 g2] m g by simp
    ultimately show "n \<le> length s \<and> ?m s = Some (n, g)" by simp
  next
    fix s assume "s \<noteq> []" "suffix s pre" and m: "?m (s @ prp @ post) = None"
    show "?m s = None"
    proof (cases "?m s")
      case None then show ?thesis .
    next
      case (Some r)
      obtain n g1 g2 where "r = (n, g1, g2)" by (cases r)
      with Some access_regex_extend [OF wf, of s n g1 g2 "prp @ post"] m show ?thesis by simp
    qed
  qed
  then show ?thesis using replace_global_at_prop [OF wf f, where post = post] by simp
qed

lemma access_wf_id: "access_wf ''id:'' ''.id''"
  by (simp add: access_wf_def isSpace_def)

lemma access_wf_labels: "access_wf ''labels:'' ''.labels''"
  by (simp add: access_wf_def isSpace_def)

lemma idReplacer_eq:
  "g1 \<noteq> [] \<Longrightarrow> idReplacer M (g1, g2) = ''id: id(this'' @ (case g2 of Some n \<Rightarrow> n | None \<Rightarrow> []) @ '')''"
  by (simp add: idReplacer_def)

lemma labelReplacer_eq:
  "g1 \<noteq> [] \<Longrightarrow> labelReplacer M (g1, g2)
     = ''labels: labels(this'' @ (case g2 of Some n \<Rightarrow> n | None \<Rightarrow> []) @ '')''"
  by (simp add: labelReplacer_def)

lemma access_regex_first_char:
  assumes "access_regex key prp (c # t) = Some r" "key \<noteq> []" "prp \<noteq> []"
  shows "c = hd key \<or> c = hd prp"
proof (rule ccontr)
  assume n: "\<not> (c = hd key \<or> c = hd prp)"
  obtain k ks where k: "key = k # ks" using assms(2) by (cases key) auto
  obtain p ps where p: "prp = p # ps" using assms(3) by (cases "prp") auto
  have "numbered_access key prp (c # t) = None" using n k by (auto simp: numbered_access_def)
  moreover have "strip_prefix prp (c # t) = None" using n p by auto
  ultimately show False using assms(1) by (simp add: access_regex_def)
qed

lemma replace_global_skip_chars:
  assumes "\<forall>c\<in>set a. c \<noteq> hd key \<and> c \<noteq> hd prp" "key \<noteq> []" "prp \<noteq> []"
  shows "replace_global (access_regex key prp) f (a @ b) = a @ replace_global (access_regex key prp) f b"
proof (rule replace_global_skip)
  fix s assume s: "s \<noteq> []" "suffix s a"
  then obtain c t where ct: "s = c # t" by (cases s) auto
  have "c \<in> set a" using s(2) ct by (auto simp: suffix_def)
  then have "c \<noteq> hd key \<and> c \<noteq> hd prp" using assms(1) by blast
  then show "access_regex key prp (s @ b) = None"
    using access_regex_first_char [of key "prp" c "t @ b"] assms(2,3) ct
    by (cases "access_regex key prp (s @ b)") auto
qed

lemma nth_in_mid: "length A \<le> i \<Longrightarrow> i < length A + length P \<Longrightarrow> (A @ P @ r) ! i \<in> set P"
proof -
  assume a: "length A \<le> i" "i < length A + length P"
  have lt: "i - length A < length P" using a by simp
  have "(A @ P @ r) ! i = (P @ r) ! (i - length A)" using a by (simp add: nth_append)
  also have "\<dots> = P ! (i - length A)" using lt by (simp add: nth_append)
  finally show ?thesis using lt by simp
qed

lemma nth_in_take: "i < n \<Longrightarrow> i < length xs \<Longrightarrow> xs ! i \<in> set (take n xs)"
proof -
  assume a: "i < n" "i < length xs"
  then have "take n xs ! i = xs ! i" "i < length (take n xs)" by simp_all
  then show ?thesis by (metis nth_mem)
qed

text \<open>The characters of a match.\<close>

lemma access_regex_match_chars:
  assumes wf: "access_wf key prp" and m: "access_regex key prp s = Some (n, g1, g2)"
    and x: "x \<in> set (take n s)"
  shows "x \<in> set key \<union> set ''this'' \<union> set prp \<or> isSpace x \<or> isDigit x"
proof -
  from access_regex_SomeD [OF wf m] obtain A r where
    s: "s = A @ prp @ r" and n: "n = length A + length prp"
    and g2: "(case g2 of None \<Rightarrow> A = []
             | Some num \<Rightarrow> num \<noteq> [] \<and> (\<forall>c\<in>set num. isDigit c) \<and>
                 (\<exists>ws. A = key @ ws @ ''this'' @ num \<and> (\<forall>c\<in>set ws. isSpace c)))"
    by blast
  have "take n s = A @ prp" using s n by simp
  then have "x \<in> set A \<or> x \<in> set prp" using x by auto
  moreover have "x \<in> set A \<Longrightarrow> x \<in> set key \<union> set ''this'' \<or> isSpace x \<or> isDigit x"
    using g2 by (cases g2) auto
  ultimately show ?thesis by blast
qed

text \<open>The text put in for an id access is left alone by the labels expression.\<close>

lemma labels_over_id_call:
  assumes num: "\<forall>c\<in>set num. isDigit c"
  shows "replace_global labelRegexPattern labelReplacer (X @ ''id: id(this'' @ num @ '')'' @ Y)
           = replace_global labelRegexPattern labelReplacer X @ ''id: id(this'' @ num @ '')''
             @ replace_global labelRegexPattern labelReplacer Y"
proof -
  let ?m = "access_regex ''labels:'' ''.labels''"
  let ?E = "''id: id(this'' @ num @ '')''"
  note wf = access_wf_labels
  have skip: "replace_global ?m labelReplacer (?E @ Y) = ?E @ replace_global ?m labelReplacer Y"
  proof (rule replace_global_skip_chars)
    show "\<forall>c\<in>set ?E. c \<noteq> hd ''labels:'' \<and> c \<noteq> hd ''.labels''"
      using num by (auto simp: isDigit_def)
  qed simp_all
  have "replace_global ?m labelReplacer (X @ (?E @ Y))
          = replace_global ?m labelReplacer X @ replace_global ?m labelReplacer (?E @ Y)"
  proof (rule replace_global_append)
    fix s n g assume s: "s \<noteq> []" "suffix s X" and m: "?m (s @ ?E @ Y) = Some (n, g)"
    obtain g1 g2 where g: "g = (g1, g2)" by (cases g)
    have le: "n \<le> length s"
    proof (rule ccontr)
      assume "\<not> n \<le> length s"
      then have gt: "length s < n" by simp
      from access_regex_SomeD [OF wf m [unfolded g]] obtain A r where
        sb: "s @ ?E @ Y = A @ ''.labels'' @ r" and n: "n = length A + length ''.labels''"
        by blast
      have i: "(s @ ?E @ Y) ! length s = CHR ''i''" by (simp add: nth_append)
      have d: "(s @ ?E @ Y) ! Suc (length s) = CHR ''d''" by (simp add: nth_append)
      have "length s < length A"
      proof (rule ccontr)
        assume "\<not> length s < length A"
        then have "(A @ ''.labels'' @ r) ! length s \<in> set ''.labels''"
          using gt n by (intro nth_in_mid) simp_all
        then have "(s @ ?E @ Y) ! length s \<in> set ''.labels''" using sb by (simp only:)
        then show False unfolding i by simp
      qed
      then have "Suc (length s) < n" using n by simp
      moreover have "Suc (length s) < length (s @ ?E @ Y)" by simp
      ultimately have "(s @ ?E @ Y) ! Suc (length s) \<in> set (take n (s @ ?E @ Y))"
        by (rule nth_in_take)
      with d have "CHR ''d'' \<in> set (take n (s @ ?E @ Y))" by (simp only:)
      from access_regex_match_chars [OF wf m [unfolded g] this] show False
        by (auto simp: isSpace_def isDigit_def)
    qed
    moreover from le have "?m s = Some (n, g)"
      using access_regex_restrict [OF wf, of s "?E @ Y" n g1 g2] m g by simp
    ultimately show "n \<le> length s \<and> ?m s = Some (n, g)" by simp
  next
    fix s assume "s \<noteq> []" "suffix s X" and m: "?m (s @ ?E @ Y) = None"
    show "?m s = None"
    proof (cases "?m s")
      case None then show ?thesis .
    next
      case (Some r)
      obtain n g1 g2 where "r = (n, g1, g2)" by (cases r)
      with Some access_regex_extend [OF wf, of s n g1 g2 "?E @ Y"] m show ?thesis by simp
    qed
  qed
  with skip show ?thesis by (simp add: labelRegexPattern_def)
qed

text \<open>The id expression leaves a labels access alone.\<close>

lemma id_over_labels_access:
  "replace_global idRegexPattern idReplacer (pre @ ''.labels'' @ post)
     = replace_global idRegexPattern idReplacer pre @ ''.labels''
       @ replace_global idRegexPattern idReplacer post"
proof -
  let ?m = "access_regex ''id:'' ''.id''"
  note wf = access_wf_id
  have none: "?m (''.labels'' @ post) = None"
    by (simp add: access_regex_def numbered_access_def)
  have "replace_global ?m idReplacer (''labels'' @ post) = ''labels'' @ replace_global ?m idReplacer post"
    by (rule replace_global_skip_chars) simp_all
  then have skip: "replace_global ?m idReplacer (''.labels'' @ post)
                     = ''.labels'' @ replace_global ?m idReplacer post"
    using none by simp
  have "replace_global ?m idReplacer (pre @ (''.labels'' @ post))
          = replace_global ?m idReplacer pre @ replace_global ?m idReplacer (''.labels'' @ post)"
  proof (rule replace_global_append)
    fix s n g assume s: "s \<noteq> []" "suffix s pre" and m: "?m (s @ ''.labels'' @ post) = Some (n, g)"
    obtain g1 g2 where g: "g = (g1, g2)" by (cases g)
    have le: "n \<le> length s"
    proof (rule ccontr)
      assume "\<not> n \<le> length s"
      from access_regex_SomeD [OF wf m [unfolded g]] obtain A r where
        sb: "s @ ''.labels'' @ post = A @ ''.id'' @ r" and n: "n = length A + length ''.id''"
        and A: "CHR ''.'' \<notin> set A"
        by blast
      have lt: "length s < length A + Suc (length ''id'')" using \<open>\<not> n \<le> length s\<close> n by simp
      have s': "s @ CHR ''.'' # (''labels'' @ post) = A @ (CHR ''.'' # ''id'') @ r"
        using sb by simp
      from dot_position [OF s' A _ lt] have "''labels'' @ post = ''id'' @ r" by simp
      then show False by simp
    qed
    moreover from le have "?m s = Some (n, g)"
      using access_regex_restrict [OF wf, of s "''.labels'' @ post" n g1 g2] m g by simp
    ultimately show "n \<le> length s \<and> ?m s = Some (n, g)" by simp
  next
    fix s assume "s \<noteq> []" "suffix s pre" and m: "?m (s @ ''.labels'' @ post) = None"
    show "?m s = None"
    proof (cases "?m s")
      case None then show ?thesis .
    next
      case (Some r)
      obtain n g1 g2 where "r = (n, g1, g2)" by (cases r)
      with Some access_regex_extend [OF wf, of s n g1 g2 "''.labels'' @ post"] m show ?thesis by simp
    qed
  qed
  with skip show ?thesis by (simp add: idRegexPattern_def)
qed

text \<open>Every replacement ends with a closing parenthesis, so a piece at the end of the
  result without one has been copied from the end of the text.\<close>

lemma append_after_char:
  assumes "xs @ x # T = a @ S" "x \<notin> set S"
  shows "\<exists>z. T = z @ S"
proof -
  from assms(1) obtain us where
    "(xs = a @ us \<and> us @ x # T = S) \<or> (xs @ us = a \<and> x # T = us @ S)"
    by (auto simp: append_eq_append_conv2)
  then show ?thesis
  proof
    assume "xs = a @ us \<and> us @ x # T = S"
    then have "x \<in> set S" by auto
    with assms(2) show ?thesis by simp
  next
    assume h: "xs @ us = a \<and> x # T = us @ S"
    show ?thesis
    proof (cases us)
      case Nil
      with h have "x \<in> set S" by auto
      with assms(2) show ?thesis by simp
    next
      case (Cons u us')
      with h show ?thesis by auto
    qed
  qed
qed

lemma replace_global_unchanged:
  assumes wf: "access_wf key prp"
    and f: "\<And>M g1 g2. g1 \<noteq> [] \<Longrightarrow> f M (g1, g2) = hdr @ (case g2 of Some n \<Rightarrow> n | None \<Rightarrow> []) @ '')''"
  shows "CHR '')'' \<notin> set (replace_global (access_regex key prp) f t)
           \<Longrightarrow> replace_global (access_regex key prp) f t = t"
proof (induction t)
  case Nil
  then show ?case by simp
next
  case (Cons c cs)
  show ?case
  proof (cases "access_regex key prp (c # cs)")
    case None
    with Cons show ?thesis by simp
  next
    case (Some r)
    obtain n g1 g2 where r: "r = (n, g1, g2)" by (cases r)
    obtain p where p: "prp = CHR ''.'' # p" using access_wf_propD [OF wf] by blast
    from access_regex_SomeD [OF wf Some [unfolded r]] have "g1 \<noteq> []" using p by auto
    from f [OF this] Some r Cons.prems show ?thesis by simp
  qed
qed

lemma replaced_suffix:
  assumes wf: "access_wf key prp"
    and f: "\<And>M g1 g2. g1 \<noteq> [] \<Longrightarrow> f M (g1, g2) = hdr @ (case g2 of Some n \<Rightarrow> n | None \<Rightarrow> []) @ '')''"
    and S: "CHR '')'' \<notin> set S"
  shows "replace_global (access_regex key prp) f t = a @ S \<Longrightarrow> \<exists>a'. t = a' @ S"
proof (induction "length t" arbitrary: t a rule: less_induct)
  case less
  let ?R = "replace_global (access_regex key prp) f"
  show ?case
  proof (cases t)
    case Nil
    with less.prems show ?thesis by simp
  next
    case (Cons c cs)
    show ?thesis
    proof (cases "access_regex key prp t")
      case None
      then have R: "?R t = c # ?R cs" by (simp add: Cons)
      show ?thesis
      proof (cases a)
        case Nil
        with R less.prems have S': "S = c # ?R cs" by simp
        then have "CHR '')'' \<notin> set (?R cs)" using S by auto
        then have "?R cs = cs" using replace_global_unchanged [where f = f and hdr = hdr and t = cs, OF wf f] by blast
        then have "t = [] @ S" using S' Cons by simp
        then show ?thesis by blast
      next
        case (Cons x a2)
        with R less.prems have "?R cs = a2 @ S" by simp
        moreover have "length cs < length t" using \<open>t = c # cs\<close> by simp
        ultimately obtain a' where "cs = a' @ S" using less.hyps by blast
        then have "t = (c # a') @ S" using \<open>t = c # cs\<close> by simp
        then show ?thesis by blast
      qed
    next
      case (Some r)
      obtain n g1 g2 where r: "r = (n, g1, g2)" by (cases r)
      obtain p where p: "prp = CHR ''.'' # p" using access_wf_propD [OF wf] by blast
      from access_regex_SomeD [OF wf Some [unfolded r]] have g1: "g1 \<noteq> []" and n: "1 \<le> n"
        using p by auto
      let ?num = "case g2 of Some n \<Rightarrow> n | None \<Rightarrow> []"
      have "?R t = (hdr @ ?num) @ CHR '')'' # ?R (drop (n - 1) cs)"
        using Some r f [OF g1] by (simp add: Cons)
      with less.prems have "(hdr @ ?num) @ CHR '')'' # ?R (drop (n - 1) cs) = a @ S" by simp
      from append_after_char [OF this S] obtain z where z: "?R (drop (n - 1) cs) = z @ S" by blast
      have "length (drop (n - 1) cs) < length t" by (simp add: Cons)
      from less.hyps [OF this z] obtain a' where a': "drop (n - 1) cs = a' @ S" by blast
      have "drop n t = drop (n - 1) cs" using n by (cases n) (simp_all add: Cons)
      then have "t = (take n t @ a') @ S" using a' by (metis append.assoc append_take_drop_id)
      then show ?thesis by blast
    qed
  qed
qed

lemma numbered_shape_no_paren:
  assumes "\<forall>c\<in>set ws. isSpace c" "\<forall>c\<in>set num. isDigit c" "CHR '')'' \<notin> set key"
  shows "CHR '')'' \<notin> set (key @ ws @ ''this'' @ num)"
  using assms by (auto dest: isSpace_chars isDigit_chars)

lemma ends_with_numbered_idReplaced:
  assumes "ends_with_numbered ''labels:'' (replace_global idRegexPattern idReplacer pre)"
  shows "ends_with_numbered ''labels:'' pre"
proof -
  from ends_with_numberedD [OF assms] obtain a ws num where
    R: "replace_global idRegexPattern idReplacer pre = a @ ''labels:'' @ ws @ ''this'' @ num"
    and ws: "\<forall>c\<in>set ws. isSpace c" and num: "num \<noteq> []" "\<forall>c\<in>set num. isDigit c"
    by blast
  have np: "CHR '')'' \<notin> set (''labels:'' @ ws @ ''this'' @ num)"
    by (rule numbered_shape_no_paren [OF ws num(2)]) simp
  from replaced_suffix [where f = idReplacer and hdr = "''id: id(this''" and t = pre and a = a,
      OF access_wf_id idReplacer_eq np] R
  obtain a' where "pre = a' @ ''labels:'' @ ws @ ''this'' @ num"
    by (auto simp: idRegexPattern_def)
  then show ?thesis
    using ends_with_numberedI [of "''labels:''" ws num a'] ws num by (simp add: isSpace_def)
qed

lemma replace_global_no_dot:
  assumes wf: "access_wf key prp" and nd: "CHR ''.'' \<notin> set t"
  shows "replace_global (access_regex key prp) f t = t"
proof -
  have "replace_global (access_regex key prp) f (t @ []) = t @ replace_global (access_regex key prp) f []"
  proof (rule replace_global_skip)
    fix s assume s: "s \<noteq> []" "suffix s t"
    show "access_regex key prp (s @ []) = None"
    proof (cases "access_regex key prp (s @ [])")
      case None then show ?thesis .
    next
      case (Some r)
      obtain n g1 g2 where "r = (n, g1, g2)" by (cases r)
      with Some have m: "access_regex key prp s = Some (n, g1, g2)" by simp
      obtain p where p: "prp = CHR ''.'' # p" using access_wf_propD [OF wf] by blast
      from access_regex_SomeD [OF wf m] obtain A r' where "s = A @ prp @ r'" by blast
      then have "CHR ''.'' \<in> set s" by (simp add: p)
      moreover have "set s \<subseteq> set t" using s(2) by (auto simp: suffix_def)
      ultimately show ?thesis using nd by blast
    qed
  qed
  then show ?thesis by simp
qed

lemma first_char_unique:
  assumes "c \<notin> set A" "c \<notin> set B" "A @ c # x = B @ c # y"
  shows "A = B \<and> x = y"
  using assms
proof (induction A arbitrary: B)
  case Nil
  then show ?case by (cases B) auto
next
  case (Cons a A)
  then show ?case by (cases B) auto
qed

lemma run_suffix_unique:
  assumes a: "\<forall>c\<in>set a. P c" and b: "\<forall>c\<in>set b. P c" and x: "\<not> P x" and y: "\<not> P y"
    and e: "u @ x # a = v @ y # b"
  shows "a = b \<and> u = v \<and> x = y"
proof -
  from e have "rev (u @ x # a) = rev (v @ y # b)" by (simp only:)
  then have r: "rev a @ x # rev u = rev b @ y # rev v" by simp
  have ra: "\<forall>c\<in>set (rev a). P c" and rb: "\<forall>c\<in>set (rev b). P c" using a b by simp_all
  from r have "takeWhile P (rev a @ x # rev u) = takeWhile P (rev b @ y # rev v)" by (simp only:)
  then have "rev a = rev b" using takeWhile_run [OF ra x] takeWhile_run [OF rb y] by simp
  then have "a = b" by simp
  with e show ?thesis by simp
qed


text \<open>An occurrence at the end of the numbered shape is replaced together with the shape,
  and the digits are kept, unless the key of the shape is itself the end of a property
  access (the shape stands directly behind a dot).\<close>

lemma numbered_occurrence:
  assumes wf: "access_wf key prp"
    and f: "\<And>M g1 g2. g1 \<noteq> [] \<Longrightarrow> f M (g1, g2) = hdr @ (case g2 of Some n \<Rightarrow> n | None \<Rightarrow> []) @ '')''"
    and ws: "\<forall>c\<in>set ws. isSpace c" and num: "num \<noteq> []" "\<forall>c\<in>set num. isDigit c"
    and q: "q = [] \<or> last q \<noteq> CHR ''.''"
    and len: "length prp \<le> length key"
    and ov: "\<And>u v. tl prp = u @ v \<Longrightarrow> v \<noteq> [] \<Longrightarrow> prefix v key \<Longrightarrow> u = []"
  shows "replace_global (access_regex key prp) f (q @ key @ ws @ ''this'' @ num @ prp @ post)
           = replace_global (access_regex key prp) f q @ hdr @ num @ '')''
             @ replace_global (access_regex key prp) f post"
proof -
  let ?m = "access_regex key prp"
  let ?R = "replace_global (access_regex key prp) f"
  define A0 where "A0 = key @ ws @ ''this'' @ num"
  define b where "b = A0 @ prp @ post"
  obtain p where p: "prp = CHR ''.'' # p" "CHR ''.'' \<notin> set p"
    using access_wf_propD [OF wf] by blast
  have key: "key \<noteq> []" "\<not> isSpace (last key)" "CHR ''.'' \<notin> set key"
    using wf by (simp_all add: access_wf_def)
  have Adot: "CHR ''.'' \<notin> set A0"
    unfolding A0_def using key(3) ws num(2) by (auto dest: isSpace_chars isDigit_chars)
  have nd: "prp \<noteq> []" "\<not> isDigit (hd prp)" using p by (simp_all add: isDigit_def)
  have "numbered_access key prp (key @ ws @ ''this'' @ num @ prp @ post)
          = Some (length (key @ ws @ ''this'' @ num @ prp), num)"
    by (rule numbered_access_SomeI [OF ws num nd])
  then have na: "numbered_access key prp b = Some (length A0 + length prp, num)"
    by (simp add: b_def A0_def)
  have tk: "take (length A0 + length prp) b = A0 @ prp" by (simp add: b_def)
  have mb: "?m b = Some (length A0 + length prp, A0 @ prp, Some num)"
    using na tk by (simp add: access_regex_def)
  have bne: "b \<noteq> []" using key(1) by (simp add: b_def A0_def)
  then obtain c cs where bc: "b = c # cs" by (cases b) auto
  have g1ne: "A0 @ prp \<noteq> []" using p by simp
  have "?R b = f (take (length A0 + length prp) b) (A0 @ prp, Some num)
                 @ ?R (drop (length A0 + length prp - 1) cs)"
    using mb by (simp add: bc)
  moreover have "drop (length A0 + length prp - 1) cs = drop (length A0 + length prp) b"
    using p by (simp add: bc)
  moreover have "drop (length A0 + length prp) b = post" by (simp add: b_def)
  ultimately have Rb: "?R b = hdr @ num @ '')'' @ ?R post"
    using f [OF g1ne] by simp
  have "?R (q @ b) = ?R q @ ?R b"
  proof (rule replace_global_append)
    fix s n g assume s: "s \<noteq> []" "suffix s q" and m: "?m (s @ b) = Some (n, g)"
    obtain g1 g2 where g: "g = (g1, g2)" by (cases g)
    have le: "n \<le> length s"
    proof (rule ccontr)
      assume gt: "\<not> n \<le> length s"
      from access_regex_SomeD [OF wf m [unfolded g]] obtain A r where
        sb: "s @ b = A @ prp @ r" and n: "n = length A + length prp"
        and A: "CHR ''.'' \<notin> set A"
        and g2: "(case g2 of None \<Rightarrow> A = []
             | Some num \<Rightarrow> num \<noteq> [] \<and> (\<forall>c\<in>set num. isDigit c) \<and>
                 (\<exists>ws. A = key @ ws @ ''this'' @ num \<and> (\<forall>c\<in>set ws. isSpace c)))"
        by blast
      show False
      proof (cases "CHR ''.'' \<in> set s")
        case True
        then obtain s1 s2 where s12: "s = s1 @ CHR ''.'' # s2" "CHR ''.'' \<notin> set s1"
          by (meson split_list_first)
        have "s1 @ CHR ''.'' # (s2 @ b) = A @ CHR ''.'' # (p @ r)" using sb s12(1) p(1) by simp
        from first_char_unique [OF s12(2) A this] have A1: "s1 = A" and rest: "s2 @ b = p @ r"
          by simp_all
        have l2: "length s2 < length p" using gt n s12(1) A1 p(1) by simp
        define v where "v = take (length p - length s2) b"
        have "take (length p) (s2 @ b) = take (length p) (p @ r)" using rest by (simp only:)
        then have pv: "p = s2 @ v" using l2 by (simp add: v_def)
        have lb: "length p - length s2 \<le> length key" using len p(1) by simp
        have "b = key @ (ws @ ''this'' @ num @ prp @ post)" by (simp add: b_def A0_def)
        then have "v = take (length p - length s2) key" using lb by (simp add: v_def)
        then have pk: "prefix v key" by (simp add: take_is_prefix)
        have vne: "v \<noteq> []" using pv l2 by auto
        have "tl prp = s2 @ v" using pv p(1) by simp
        from ov [OF this vne pk] have "s2 = []" .
        with s12(1) have "last s = CHR ''.''" by simp
        moreover obtain x where "q = x @ s" using s(2) by (auto simp: suffix_def)
        ultimately have "q \<noteq> []" "last q = CHR ''.''" using s(1) by simp_all
        with q show False by simp
      next
        case False
        have nd': "CHR ''.'' \<notin> set (s @ A0)" using False Adot by simp
        have "(s @ A0) @ CHR ''.'' # (p @ post) = A @ CHR ''.'' # (p @ r)"
          using sb p(1) by (simp add: b_def)
        from first_char_unique [OF nd' A this] have A1: "A = s @ A0" by simp
        show False
        proof (cases g2)
          case None
          with g2 A1 s(1) show False by simp
        next
          case (Some num')
          with g2 obtain ws' where A2: "A = key @ ws' @ ''this'' @ num'"
            and ws': "\<forall>c\<in>set ws'. isSpace c" and num': "\<forall>c\<in>set num'. isDigit c" by auto
          have ns: "\<not> isDigit CHR ''s''" by (simp add: isDigit_def)
          have "(s @ key @ ws @ ''thi'') @ CHR ''s'' # num = (key @ ws' @ ''thi'') @ CHR ''s'' # num'"
            using A1 A2 by (simp add: A0_def)
          from run_suffix_unique [OF num(2) num' ns ns this]
          have e1: "s @ key @ ws = key @ ws'" by simp
          obtain kb kl where kk: "key = kb @ [kl]" "\<not> isSpace kl"
            using key(1,2) by (cases key rule: rev_cases) auto
          have "(s @ kb) @ kl # ws = kb @ kl # ws'" using e1 kk(1) by simp
          from run_suffix_unique [OF ws ws' kk(2) kk(2) this] have "s @ kb = kb" by simp
          with s(1) show False by simp
        qed
      qed
    qed
    moreover from le have "?m s = Some (n, g)"
      using access_regex_restrict [OF wf, of s b n g1 g2] m g by simp
    ultimately show "n \<le> length s \<and> ?m s = Some (n, g)" by simp
  next
    fix s assume "s \<noteq> []" "suffix s q" and m: "?m (s @ b) = None"
    show "?m s = None"
    proof (cases "?m s")
      case None then show ?thesis .
    next
      case (Some r)
      obtain n g1 g2 where "r = (n, g1, g2)" by (cases r)
      with Some access_regex_extend [OF wf, of s n g1 g2 b] m show ?thesis by simp
    qed
  qed
  with Rb show ?thesis by (simp add: b_def A0_def)
qed


lemma id_overlap: "tl ''.id'' = u @ v \<Longrightarrow> v \<noteq> [] \<Longrightarrow> prefix v ''id:'' \<Longrightarrow> u = []"
  by (auto simp: Cons_eq_append_conv prefix_Cons)

lemma labels_overlap: "tl ''.labels'' = u @ v \<Longrightarrow> v \<noteq> [] \<Longrightarrow> prefix v ''labels:'' \<Longrightarrow> u = []"
  by (auto simp: Cons_eq_append_conv prefix_Cons)

lemma replaced_last_dot:
  assumes wf: "access_wf key prp"
    and f: "\<And>M g1 g2. g1 \<noteq> [] \<Longrightarrow> f M (g1, g2) = hdr @ (case g2 of Some n \<Rightarrow> n | None \<Rightarrow> []) @ '')''"
    and q: "q = [] \<or> last q \<noteq> CHR ''.''"
  shows "replace_global (access_regex key prp) f q = []
       \<or> last (replace_global (access_regex key prp) f q) \<noteq> CHR ''.''"
proof (rule ccontr)
  let ?t = "replace_global (access_regex key prp) f q"
  assume "\<not> (?t = [] \<or> last ?t \<noteq> CHR ''.'')"
  then have "?t \<noteq> []" "last ?t = CHR ''.''" by simp_all
  then have "?t = butlast ?t @ ''.''" by (metis append_butlast_last_id)
  from replaced_suffix [where f = f and hdr = hdr and t = q and a = "butlast ?t" and S = "''.''",
      OF wf f _ this]
  obtain a' where "q = a' @ ''.''" by auto
  with q show False by simp
qed

lemma replace_global_before_nodot:
  assumes wf: "access_wf key prp" and nd: "CHR ''.'' \<notin> set B"
    and hd: "B \<noteq> [] \<Longrightarrow> hd B \<notin> set (tl prp)"
  shows "replace_global (access_regex key prp) f (q @ B) = replace_global (access_regex key prp) f q @ B"
proof -
  let ?m = "access_regex key prp"
  let ?R = "replace_global (access_regex key prp) f"
  obtain p where p: "prp = CHR ''.'' # p" "CHR ''.'' \<notin> set p"
    using access_wf_propD [OF wf] by blast
  have "?R (q @ B) = ?R q @ ?R B"
  proof (rule replace_global_append)
    fix s n g assume s: "s \<noteq> []" "suffix s q" and m: "?m (s @ B) = Some (n, g)"
    obtain g1 g2 where g: "g = (g1, g2)" by (cases g)
    have le: "n \<le> length s"
    proof (rule ccontr)
      assume gt: "\<not> n \<le> length s"
      from access_regex_SomeD [OF wf m [unfolded g]] obtain A r where
        sb: "s @ B = A @ prp @ r" and n: "n = length A + length prp"
        and A: "CHR ''.'' \<notin> set A" by blast
      have "CHR ''.'' \<in> set (s @ B)" using sb p(1) by simp
      with nd have "CHR ''.'' \<in> set s" by simp
      then obtain s1 s2 where s12: "s = s1 @ CHR ''.'' # s2" "CHR ''.'' \<notin> set s1"
        by (meson split_list_first)
      have "s1 @ CHR ''.'' # (s2 @ B) = A @ CHR ''.'' # (p @ r)" using sb s12(1) p(1) by simp
      from first_char_unique [OF s12(2) A this] have A1: "s1 = A" and rest: "s2 @ B = p @ r"
        by simp_all
      have l2: "length s2 < length p" using gt n s12(1) A1 p(1) by simp
      have "take (length p) (s2 @ B) = take (length p) (p @ r)" using rest by (simp only:)
      then have pv: "p = s2 @ take (length p - length s2) B" using l2 by simp
      have Bne: "B \<noteq> []" using pv l2 by (cases B) auto
      then obtain x xs where B: "B = x # xs" by (cases B) auto
      have "take (length p - length s2) B = x # take (length p - length s2 - 1) xs"
        using l2 by (cases "length p - length s2") (simp_all add: B)
      with pv have "x \<in> set p" by (metis in_set_conv_decomp)
      with hd [OF Bne] B p(1) show False by simp
    qed
    moreover from le have "?m s = Some (n, g)"
      using access_regex_restrict [OF wf, of s B n g1 g2] m g by simp
    ultimately show "n \<le> length s \<and> ?m s = Some (n, g)" by simp
  next
    fix s assume "s \<noteq> []" "suffix s q" and m: "?m (s @ B) = None"
    show "?m s = None"
    proof (cases "?m s")
      case None then show ?thesis .
    next
      case (Some r)
      obtain n g1 g2 where "r = (n, g1, g2)" by (cases r)
      with Some access_regex_extend [OF wf, of s n g1 g2 B] m show ?thesis by simp
    qed
  qed
  then show ?thesis using replace_global_no_dot [OF wf nd] by simp
qed

lemma shape_no_dot:
  assumes "\<forall>c\<in>set ws. isSpace c" "\<forall>c\<in>set num. isDigit c" "CHR ''.'' \<notin> set key"
  shows "CHR ''.'' \<notin> set (key @ ws @ ''this'' @ num)"
  using assms by (auto dest: isSpace_chars isDigit_chars)

lemma not_numbered_after_colon:
  assumes ws: "\<forall>c\<in>set ws. isSpace c" and num: "\<forall>c\<in>set num. isDigit c" and key: "key \<noteq> []"
    and col: "last key = CHR '':''" "1 < length key"
  shows "\<not> ends_with_numbered key ('':'' @ ws @ ''this'' @ num)"
proof
  assume "ends_with_numbered key ('':'' @ ws @ ''this'' @ num)"
  from ends_with_numberedD [OF this] obtain a ws' num' where
    e: "'':'' @ ws @ ''this'' @ num = a @ key @ ws' @ ''this'' @ num'"
    and ws': "\<forall>c\<in>set ws'. isSpace c" and num': "\<forall>c\<in>set num'. isDigit c" by blast
  have ns: "\<not> isDigit CHR ''s''" by (simp add: isDigit_def)
  have "('':'' @ ws @ ''thi'') @ CHR ''s'' # num = (a @ key @ ws' @ ''thi'') @ CHR ''s'' # num'"
    using e by simp
  from run_suffix_unique [OF num num' ns ns this] have e1: "'':'' @ ws = a @ key @ ws'" by simp
  have kk: "key = butlast key @ '':''" using key col(1) by (metis append_butlast_last_id)
  have nc: "\<not> isSpace CHR '':''" by (simp add: isSpace_def)
  have "[] @ CHR '':'' # ws = (a @ butlast key) @ CHR '':'' # ws'"
    using e1 kk by (metis append.assoc append_Cons append_Nil)
  from run_suffix_unique [OF ws ws' nc nc this] have "a @ butlast key = []" by simp
  then have "key = '':''" using kk by simp
  with col(2) show False by simp
qed



section \<open>The rewriting of Projection.ts on a text\<close>

lemma replacedString_bare_id:
  assumes "\<not> ends_with_numbered ''id:'' pre"
  shows "replacedString (pre @ ''.id'' @ post)
           = replacedString pre @ ''id: id(this)'' @ replacedString post"
proof -
  have "idReplacedString (pre @ ''.id'' @ post)
          = idReplacedString pre @ ''id: id(this'' @ [] @ '')'' @ idReplacedString post"
    using bare_occurrence [where f = idReplacer and hdr = "''id: id(this''" and key = "''id:''"
        and prp = "''.id''" and pre = pre and post = post, OF access_wf_id idReplacer_eq assms]
    by (simp add: idReplacedString_def idRegexPattern_def)
  then show ?thesis
    using labels_over_id_call [of "[]" "idReplacedString pre" "idReplacedString post"]
    by (simp add: replacedString_def)
qed

lemma replacedString_bare_labels:
  assumes "\<not> ends_with_numbered ''labels:'' pre"
  shows "replacedString (pre @ ''.labels'' @ post)
           = replacedString pre @ ''labels: labels(this)'' @ replacedString post"
proof -
  have sh: "\<not> ends_with_numbered ''labels:'' (idReplacedString pre)"
    using assms ends_with_numbered_idReplaced [of pre] by (auto simp: idReplacedString_def)
  have "idReplacedString (pre @ ''.labels'' @ post)
          = idReplacedString pre @ ''.labels'' @ idReplacedString post"
    using id_over_labels_access [of pre post] by (simp add: idReplacedString_def)
  then show ?thesis
    using bare_occurrence [where f = labelReplacer and hdr = "''labels: labels(this''"
        and key = "''labels:''" and prp = "''.labels''" and pre = "idReplacedString pre"
        and post = "idReplacedString post", OF access_wf_labels labelReplacer_eq sh]
    by (simp add: replacedString_def labelRegexPattern_def)
qed

lemma replacedString_kept_id:
  assumes ws: "\<forall>c\<in>set ws. isSpace c" and num: "num \<noteq> []" "\<forall>c\<in>set num. isDigit c"
    and q: "q = [] \<or> last q \<noteq> CHR ''.''"
  shows "replacedString (q @ ''id:'' @ ws @ ''this'' @ num @ ''.id'' @ post)
           = replacedString q @ ''id: id(this'' @ num @ '')'' @ replacedString post"
proof -
  have "idReplacedString (q @ ''id:'' @ ws @ ''this'' @ num @ ''.id'' @ post)
          = idReplacedString q @ ''id: id(this'' @ num @ '')'' @ idReplacedString post"
    unfolding idReplacedString_def idRegexPattern_def
    by (rule numbered_occurrence [OF access_wf_id idReplacer_eq ws num q _ id_overlap]) simp_all
  then show ?thesis
    using labels_over_id_call [OF num(2), of "idReplacedString q" "idReplacedString post"]
    by (simp add: replacedString_def)
qed

lemma replacedString_kept_labels:
  assumes ws: "\<forall>c\<in>set ws. isSpace c" and num: "num \<noteq> []" "\<forall>c\<in>set num. isDigit c"
    and q: "q = [] \<or> last q \<noteq> CHR ''.''"
  shows "replacedString (q @ ''labels:'' @ ws @ ''this'' @ num @ ''.labels'' @ post)
           = replacedString q @ ''labels: labels(this'' @ num @ '')'' @ replacedString post"
proof -
  let ?B = "''labels:'' @ ws @ ''this'' @ num"
  have nd: "CHR ''.'' \<notin> set ?B" by (rule shape_no_dot [OF ws num(2)]) simp
  have 1: "idReplacedString ((q @ ?B) @ ''.labels'' @ post)
          = idReplacedString (q @ ?B) @ ''.labels'' @ idReplacedString post"
    using id_over_labels_access [of "q @ ?B" post] by (simp only: idReplacedString_def)
  have 2: "idReplacedString (q @ ?B) = idReplacedString q @ ?B"
    unfolding idReplacedString_def idRegexPattern_def
    by (rule replace_global_before_nodot [OF access_wf_id nd]) simp
  have I: "idReplacedString (q @ ''labels:'' @ ws @ ''this'' @ num @ ''.labels'' @ post)
          = idReplacedString q @ ''labels:'' @ ws @ ''this'' @ num @ ''.labels'' @ idReplacedString post"
    using 1 2 by simp
  have q': "idReplacedString q = [] \<or> last (idReplacedString q) \<noteq> CHR ''.''"
    unfolding idReplacedString_def idRegexPattern_def
    by (rule replaced_last_dot [OF access_wf_id idReplacer_eq q])
  have "replace_global (access_regex ''labels:'' ''.labels'') labelReplacer
          (idReplacedString q @ ''labels:'' @ ws @ ''this'' @ num @ ''.labels'' @ idReplacedString post)
        = replace_global (access_regex ''labels:'' ''.labels'') labelReplacer (idReplacedString q)
          @ ''labels: labels(this'' @ num @ '')''
          @ replace_global (access_regex ''labels:'' ''.labels'') labelReplacer (idReplacedString post)"
    by (rule numbered_occurrence [OF access_wf_labels labelReplacer_eq ws num q' _ labels_overlap])
       simp_all
  then show ?thesis using I by (simp add: replacedString_def labelRegexPattern_def)
qed


text \<open>Whatever stands before it, an occurrence is replaced by a call; the digits in the
  call, if any, are the digits that end the numbered shape before the occurrence.\<close>

lemma replacedString_occurrence_id:
  "\<exists>out num. (num = [] \<or> ((\<forall>c\<in>set num. isDigit c)
                 \<and> (\<exists>a ws. pre = a @ ''id:'' @ ws @ ''this'' @ num \<and> (\<forall>c\<in>set ws. isSpace c)))) \<and>
     replacedString (pre @ ''.id'' @ post)
       = out @ ''id: id(this'' @ num @ '')'' @ replacedString post"
proof -
  from occurrence_replaced [where f = idReplacer and hdr = "''id: id(this''" and key = "''id:''"
        and prp = "''.id''" and pre = pre and post = post, OF access_wf_id idReplacer_eq]
  obtain out num where
    R: "idReplacedString (pre @ ''.id'' @ post)
          = out @ ''id: id(this'' @ num @ '')'' @ idReplacedString post"
    and num: "num = [] \<or> ((\<forall>c\<in>set num. isDigit c)
               \<and> (\<exists>a ws. pre = a @ ''id:'' @ ws @ ''this'' @ num \<and> (\<forall>c\<in>set ws. isSpace c)))"
    unfolding idReplacedString_def idRegexPattern_def by blast
  have d: "\<forall>c\<in>set num. isDigit c" using num by auto
  have "replacedString (pre @ ''.id'' @ post)
          = replace_global labelRegexPattern labelReplacer out
            @ ''id: id(this'' @ num @ '')'' @ replacedString post"
    using labels_over_id_call [OF d, of out "idReplacedString post"] R
    by (simp add: replacedString_def)
  with num show ?thesis by blast
qed

lemma replacedString_occurrence_labels:
  "\<exists>out num. (num = [] \<or> ((\<forall>c\<in>set num. isDigit c)
                 \<and> (\<exists>a ws. pre = a @ ''labels:'' @ ws @ ''this'' @ num \<and> (\<forall>c\<in>set ws. isSpace c)))) \<and>
     replacedString (pre @ ''.labels'' @ post)
       = out @ ''labels: labels(this'' @ num @ '')'' @ replacedString post"
proof -
  have I: "idReplacedString (pre @ ''.labels'' @ post)
          = idReplacedString pre @ ''.labels'' @ idReplacedString post"
    using id_over_labels_access [of pre post] by (simp add: idReplacedString_def)
  from occurrence_replaced [where f = labelReplacer and hdr = "''labels: labels(this''"
        and key = "''labels:''" and prp = "''.labels''" and pre = "idReplacedString pre"
        and post = "idReplacedString post", OF access_wf_labels labelReplacer_eq]
  obtain out num where
    R: "replace_global labelRegexPattern labelReplacer
          (idReplacedString pre @ ''.labels'' @ idReplacedString post)
          = out @ ''labels: labels(this'' @ num @ '')'' @ replacedString post"
    and num: "num = [] \<or> ((\<forall>c\<in>set num. isDigit c)
               \<and> (\<exists>a ws. idReplacedString pre = a @ ''labels:'' @ ws @ ''this'' @ num
                      \<and> (\<forall>c\<in>set ws. isSpace c)))"
    unfolding replacedString_def labelRegexPattern_def by blast
  have sh: "num = [] \<or> ((\<forall>c\<in>set num. isDigit c)
               \<and> (\<exists>a ws. pre = a @ ''labels:'' @ ws @ ''this'' @ num \<and> (\<forall>c\<in>set ws. isSpace c)))"
  proof (cases "num = []")
    case True
    then show ?thesis by simp
  next
    case False
    with num obtain a ws where d: "\<forall>c\<in>set num. isDigit c"
      and e: "idReplacedString pre = a @ ''labels:'' @ ws @ ''this'' @ num"
      and ws: "\<forall>c\<in>set ws. isSpace c" by blast
    have np: "CHR '')'' \<notin> set (''labels:'' @ ws @ ''this'' @ num)"
      by (rule numbered_shape_no_paren [OF ws d]) simp
    from replaced_suffix [where f = idReplacer and hdr = "''id: id(this''" and t = pre and a = a,
        OF access_wf_id idReplacer_eq np] e
    obtain a' where "pre = a' @ ''labels:'' @ ws @ ''this'' @ num"
      by (auto simp: idReplacedString_def idRegexPattern_def)
    with d ws show ?thesis by blast
  qed
  have "replacedString (pre @ ''.labels'' @ post)
          = out @ ''labels: labels(this'' @ num @ '')'' @ replacedString post"
    using R I by (simp add: replacedString_def)
  with sh show ?thesis by blast
qed

text \<open>When the numbered shape stands directly behind a dot, its key is the end of another
  occurrence, which is replaced first; the occurrence behind the shape is then replaced on
  its own and the digits stay in the text.\<close>

lemma replacedString_overlapped_id:
  assumes ws: "\<forall>c\<in>set ws. isSpace c" and num: "\<forall>c\<in>set num. isDigit c"
  shows "\<exists>out. replacedString (q @ ''.id:'' @ ws @ ''this'' @ num @ ''.id'' @ post)
           = out @ '':'' @ ws @ ''this'' @ num @ ''id: id(this)'' @ replacedString post"
proof -
  let ?C = "'':'' @ ws @ ''this'' @ num"
  let ?L = "replace_global labelRegexPattern labelReplacer"
  have nd: "CHR ''.'' \<notin> set ?C" by (rule shape_no_dot [OF ws num]) simp
  have sh: "\<not> ends_with_numbered ''id:'' ?C"
    by (rule not_numbered_after_colon [OF ws num]) simp_all
  from occurrence_replaced [where f = idReplacer and hdr = "''id: id(this''" and key = "''id:''"
        and prp = "''.id''" and pre = q and post = "?C @ ''.id'' @ post",
        OF access_wf_id idReplacer_eq]
  obtain out n0 where
    R: "idReplacedString (q @ ''.id'' @ ?C @ ''.id'' @ post)
          = out @ ''id: id(this'' @ n0 @ '')'' @ idReplacedString (?C @ ''.id'' @ post)"
    and n0: "n0 = [] \<or> (\<forall>c\<in>set n0. isDigit c)"
    unfolding idReplacedString_def idRegexPattern_def by blast
  have d0: "\<forall>c\<in>set n0. isDigit c" using n0 by auto
  have "idReplacedString (?C @ ''.id'' @ post)
          = idReplacedString ?C @ ''id: id(this'' @ [] @ '')'' @ idReplacedString post"
    using bare_occurrence [where f = idReplacer and hdr = "''id: id(this''" and key = "''id:''"
        and prp = "''.id''" and pre = ?C and post = post, OF access_wf_id idReplacer_eq sh]
    by (simp add: idReplacedString_def idRegexPattern_def)
  moreover have "idReplacedString ?C = ?C"
    unfolding idReplacedString_def idRegexPattern_def
    by (rule replace_global_no_dot [OF access_wf_id nd])
  ultimately have I: "idReplacedString (q @ ''.id'' @ ?C @ ''.id'' @ post)
      = out @ ''id: id(this'' @ n0 @ '')'' @ (?C @ ''id: id(this'' @ [] @ '')'' @ idReplacedString post)"
    using R by simp
  have "?L (out @ ''id: id(this'' @ n0 @ '')'' @ (?C @ ''id: id(this'' @ [] @ '')'' @ idReplacedString post))
      = ?L out @ ''id: id(this'' @ n0 @ '')'' @ ?L (?C @ ''id: id(this'' @ [] @ '')'' @ idReplacedString post)"
    by (rule labels_over_id_call [OF d0])
  moreover have "?L (?C @ ''id: id(this'' @ [] @ '')'' @ idReplacedString post)
      = ?L ?C @ ''id: id(this'' @ [] @ '')'' @ ?L (idReplacedString post)"
    by (rule labels_over_id_call) simp
  moreover have "?L ?C = ?C"
    unfolding labelRegexPattern_def by (rule replace_global_no_dot [OF access_wf_labels nd])
  ultimately have "replacedString (q @ ''.id'' @ ?C @ ''.id'' @ post)
      = (?L out @ ''id: id(this'' @ n0 @ '')'') @ ?C @ ''id: id(this)'' @ replacedString post"
    using I by (simp add: replacedString_def)
  then show ?thesis by (intro exI [of _ "?L out @ ''id: id(this'' @ n0 @ '')''"]) simp
qed

lemma replacedString_overlapped_labels:
  assumes ws: "\<forall>c\<in>set ws. isSpace c" and num: "\<forall>c\<in>set num. isDigit c"
  shows "\<exists>out. replacedString (q @ ''.labels:'' @ ws @ ''this'' @ num @ ''.labels'' @ post)
           = out @ '':'' @ ws @ ''this'' @ num @ ''labels: labels(this)'' @ replacedString post"
proof -
  let ?C = "'':'' @ ws @ ''this'' @ num"
  let ?L = "replace_global labelRegexPattern labelReplacer"
  have nd: "CHR ''.'' \<notin> set ?C" by (rule shape_no_dot [OF ws num]) simp
  have sh: "\<not> ends_with_numbered ''labels:'' ?C"
    by (rule not_numbered_after_colon [OF ws num]) simp_all
  have "idReplacedString ((q @ ''.labels'' @ ?C) @ ''.labels'' @ post)
          = idReplacedString (q @ ''.labels'' @ ?C) @ ''.labels'' @ idReplacedString post"
    using id_over_labels_access [of "q @ ''.labels'' @ ?C" post] by (simp only: idReplacedString_def)
  moreover have "idReplacedString (q @ ''.labels'' @ ?C)
          = idReplacedString q @ ''.labels'' @ idReplacedString ?C"
    using id_over_labels_access [of q ?C] by (simp only: idReplacedString_def)
  moreover have "idReplacedString ?C = ?C"
    unfolding idReplacedString_def idRegexPattern_def
    by (rule replace_global_no_dot [OF access_wf_id nd])
  ultimately have I: "idReplacedString (q @ ''.labels'' @ ?C @ ''.labels'' @ post)
      = idReplacedString q @ ''.labels'' @ (?C @ ''.labels'' @ idReplacedString post)"
    by simp
  from occurrence_replaced [where f = labelReplacer and hdr = "''labels: labels(this''"
        and key = "''labels:''" and prp = "''.labels''" and pre = "idReplacedString q"
        and post = "?C @ ''.labels'' @ idReplacedString post", OF access_wf_labels labelReplacer_eq]
  obtain out n0 where
    R: "?L (idReplacedString q @ ''.labels'' @ (?C @ ''.labels'' @ idReplacedString post))
          = out @ ''labels: labels(this'' @ n0 @ '')'' @ ?L (?C @ ''.labels'' @ idReplacedString post)"
    unfolding labelRegexPattern_def by blast
  have "?L (?C @ ''.labels'' @ idReplacedString post)
          = ?L ?C @ ''labels: labels(this'' @ [] @ '')'' @ ?L (idReplacedString post)"
    using bare_occurrence [where f = labelReplacer and hdr = "''labels: labels(this''"
        and key = "''labels:''" and prp = "''.labels''" and pre = ?C
        and post = "idReplacedString post", OF access_wf_labels labelReplacer_eq sh]
    by (simp add: labelRegexPattern_def)
  moreover have "?L ?C = ?C"
    unfolding labelRegexPattern_def by (rule replace_global_no_dot [OF access_wf_labels nd])
  ultimately have "replacedString (q @ ''.labels'' @ ?C @ ''.labels'' @ post)
      = (out @ ''labels: labels(this'' @ n0 @ '')'') @ ?C @ ''labels: labels(this)'' @ replacedString post"
    using I R by (simp add: replacedString_def)
  then show ?thesis by (intro exI [of _ "out @ ''labels: labels(this'' @ n0 @ '')''"]) simp
qed

section \<open>The rewriting of the other revision on a text\<close>









lemma ends_with_numbered_iff:
  assumes "key \<noteq> []" "\<not> isSpace (last key)"
  shows "ends_with_numbered key pre \<longleftrightarrow>
     (\<exists>a ws num. pre = a @ key @ ws @ ''this'' @ num \<and> (\<forall>c\<in>set ws. isSpace c)
            \<and> num \<noteq> [] \<and> (\<forall>c\<in>set num. isDigit c))"
  using ends_with_numberedD [of key pre] ends_with_numberedI [OF assms] by blast










section \<open>The columns of a projection\<close>

lemma serializeColumn_eq:
  assumes "exprCypher (columnExpr col) env = Inr (text, env1)"
    and "aliasPart refCypher col env1 = Inr (aliasText, env2)"
  shows "serializeColumn exprCypher refCypher col env = Inr (replacedString text @ aliasText, env2)"
proof (cases col)
  case (Plain e)
  with assms show ?thesis by (simp add: serializeColumn_def)
next
  case (Aliased e al)
  with assms show ?thesis
    by (cases al) (auto simp: serializeColumn_def split: sum.splits)
qed



lemmas regex_eval = replacedString_def idReplacedString_def idRegexPattern_def
  labelRegexPattern_def access_regex_def numbered_access_def idReplacer_def labelReplacer_def
  isSpace_def isDigit_def

lemmas part000_eval = replacedString_part000_def regexPattern_def replacer_def varName_def
  variableMatch_def isAlnum_def

section \<open>The claims about the projection serializer\<close>





text \<open>
  C2. The rewriting misfires on look-alike text. The column is the access to a property
  named \<open>identifier\<close> (or \<open>labelsCount\<close>) of the variable \<open>this0\<close>; the serializer finds
  \<open>.id\<close> (\<open>.labels\<close>) inside the property name and rewrites it, in both revisions, so that
  the output is not the rendering of the expression.
\<close>

theorem serializeColumn_misfires_on_lookalike:
  "serializeColumn RawCypher_getCypher refCypher (Plain ''this0.identifier'') env
     = Inr (''this0id: id(this)entifier'', env)
   \<and> serializeColumn RawCypher_getCypher refCypher (Aliased ''this0.identifier'' (AliasString ''x'')) env
     = Inr (''this0id: id(this)entifier AS x'', env)
   \<and> serializeColumn RawCypher_getCypher refCypher (Plain ''this0.labelsCount'') env
     = Inr (''this0labels: labels(this)Count'', env)
   \<and> serializeColumn_part000 RawCypher_getCypher refCypher (Plain ''this0.identifier'') env
     = Inr (''this0id: id(this0identifier)entifier'', env)
   \<and> serializeColumn_part000 RawCypher_getCypher refCypher
        (Aliased ''this0.labelsCount'' (AliasString ''x'')) env
     = Inr (''this0labels: labels(this0.labelsCount)Count AS x'', env)
   \<and> ''this0id: id(this)entifier'' \<noteq> ''this0.identifier''"
proof -
  have 1: "replacedString ''this0.identifier'' = ''this0id: id(this)entifier''"
    by (simp add: regex_eval)
  have 2: "replacedString ''this0.labelsCount'' = ''this0labels: labels(this)Count''"
    by (simp add: regex_eval)
  have 3: "variableMatch ''this0.identifier'' = ''this0identifier''" by (simp add: part000_eval)
  have 4: "replacedString_part000 ''this0identifier'' ''this0.identifier''
             = ''this0id: id(this0identifier)entifier''"
    by (simp add: part000_eval)
  have 5: "varName ''this0.labelsCount'' = ''this0.labelsCount''" by (simp add: part000_eval)
  have 6: "replacedString_part000 ''this0.labelsCount'' ''this0.labelsCount''
             = ''this0labels: labels(this0.labelsCount)Count''"
    by (simp add: part000_eval)
  show ?thesis
    by (simp add: serializeColumn_def serializeColumn_part000_def RawCypher_getCypher_def
          1 2 3 4 5 6)
qed

text \<open>
  C3. In Projection.ts, for every column, plain or aliased by a string or by a reference:
  an occurrence of \<open>.id\<close> that is not the end of the shape \<open>id:\s*thisN.id\<close> (the text before
  it does not end with \<open>id:\<close>, white space, \<open>this\<close> and digits) is replaced by the fixed text
  \<open>id: id(this)\<close>, whatever variable the access was on; an occurrence that is the end of the
  shape is replaced together with the shape by \<open>id: id(thisN)\<close>, with the digits of the text;
  in both cases the text before and the text behind are rewritten on their own. (Only when
  the shape stands directly behind a dot is its \<open>id\<close> the end of an occurrence of its own;
  the occurrence behind the shape is then replaced by \<open>id: id(this)\<close> and the digits stay in
  the text.) Whatever the text, an occurrence ends up as the
  end of \<open>id: id(thisN)\<close>, and digits \<open>N\<close> are there only when they are the digits of the
  shape that the occurrence ends. The same holds for \<open>.labels\<close> and \<open>labels: labels(this)\<close>.
  The alias, if any, follows the rewritten text.
\<close>

theorem serializeColumn_bare_access:
  assumes "exprCypher (columnExpr col) env = Inr (exprStr, env1)"
    and "aliasPart refCypher col env1 = Inr (aliasText, env2)"
  shows "(\<forall>pre post. exprStr = pre @ ''.id'' @ post \<and> \<not> ends_with_numbered ''id:'' pre \<longrightarrow>
            serializeColumn exprCypher refCypher col env
              = Inr (replacedString pre @ ''id: id(this)'' @ replacedString post @ aliasText, env2))
    \<and> (\<forall>pre post. exprStr = pre @ ''.labels'' @ post \<and> \<not> ends_with_numbered ''labels:'' pre \<longrightarrow>
            serializeColumn exprCypher refCypher col env
              = Inr (replacedString pre @ ''labels: labels(this)'' @ replacedString post @ aliasText, env2))
    \<and> (\<forall>q ws num post. exprStr = q @ ''id:'' @ ws @ ''this'' @ num @ ''.id'' @ post
            \<and> (\<forall>c\<in>set ws. isSpace c) \<and> num \<noteq> [] \<and> (\<forall>c\<in>set num. isDigit c)
            \<and> (q = [] \<or> last q \<noteq> CHR ''.'') \<longrightarrow>
            serializeColumn exprCypher refCypher col env
              = Inr (replacedString q @ ''id: id(this'' @ num @ '')'' @ replacedString post @ aliasText,
                     env2))
    \<and> (\<forall>q ws num post. exprStr = q @ ''labels:'' @ ws @ ''this'' @ num @ ''.labels'' @ post
            \<and> (\<forall>c\<in>set ws. isSpace c) \<and> num \<noteq> [] \<and> (\<forall>c\<in>set num. isDigit c)
            \<and> (q = [] \<or> last q \<noteq> CHR ''.'') \<longrightarrow>
            serializeColumn exprCypher refCypher col env
              = Inr (replacedString q @ ''labels: labels(this'' @ num @ '')'' @ replacedString post
                     @ aliasText, env2))
    \<and> (\<forall>pre post. exprStr = pre @ ''.id'' @ post \<longrightarrow>
          (\<exists>out num.
             (num = [] \<or> ((\<forall>c\<in>set num. isDigit c)
                \<and> (\<exists>a ws. pre = a @ ''id:'' @ ws @ ''this'' @ num \<and> (\<forall>c\<in>set ws. isSpace c)))) \<and>
             serializeColumn exprCypher refCypher col env
               = Inr (out @ ''id: id(this'' @ num @ '')'' @ replacedString post @ aliasText, env2)))
    \<and> (\<forall>pre post. exprStr = pre @ ''.labels'' @ post \<longrightarrow>
          (\<exists>out num.
             (num = [] \<or> ((\<forall>c\<in>set num. isDigit c)
                \<and> (\<exists>a ws. pre = a @ ''labels:'' @ ws @ ''this'' @ num \<and> (\<forall>c\<in>set ws. isSpace c)))) \<and>
             serializeColumn exprCypher refCypher col env
               = Inr (out @ ''labels: labels(this'' @ num @ '')'' @ replacedString post @ aliasText,
                      env2)))
    \<and> (\<forall>q ws num post. exprStr = q @ ''.id:'' @ ws @ ''this'' @ num @ ''.id'' @ post
            \<and> (\<forall>c\<in>set ws. isSpace c) \<and> (\<forall>c\<in>set num. isDigit c) \<longrightarrow>
          (\<exists>out. serializeColumn exprCypher refCypher col env
             = Inr (out @ '':'' @ ws @ ''this'' @ num @ ''id: id(this)'' @ replacedString post
                    @ aliasText, env2)))
    \<and> (\<forall>q ws num post. exprStr = q @ ''.labels:'' @ ws @ ''this'' @ num @ ''.labels'' @ post
            \<and> (\<forall>c\<in>set ws. isSpace c) \<and> (\<forall>c\<in>set num. isDigit c) \<longrightarrow>
          (\<exists>out. serializeColumn exprCypher refCypher col env
             = Inr (out @ '':'' @ ws @ ''this'' @ num @ ''labels: labels(this)'' @ replacedString post
                    @ aliasText, env2)))"
proof -
  have s: "serializeColumn exprCypher refCypher col env = Inr (replacedString exprStr @ aliasText, env2)"
    using assms by (rule serializeColumn_eq)
  have 1: "serializeColumn exprCypher refCypher col env
              = Inr (replacedString pre @ ''id: id(this)'' @ replacedString post @ aliasText, env2)"
    if "exprStr = pre @ ''.id'' @ post \<and> \<not> ends_with_numbered ''id:'' pre" for pre post
  proof -
    from that have t: "exprStr = pre @ ''.id'' @ post" and sh: "\<not> ends_with_numbered ''id:'' pre"
      by simp_all
    have "replacedString exprStr = replacedString pre @ ''id: id(this)'' @ replacedString post"
      using replacedString_bare_id [OF sh, of post] t by (simp only:)
    then show ?thesis by (simp add: s)
  qed
  have 2: "serializeColumn exprCypher refCypher col env
              = Inr (replacedString pre @ ''labels: labels(this)'' @ replacedString post @ aliasText, env2)"
    if "exprStr = pre @ ''.labels'' @ post \<and> \<not> ends_with_numbered ''labels:'' pre" for pre post
  proof -
    from that have t: "exprStr = pre @ ''.labels'' @ post"
      and sh: "\<not> ends_with_numbered ''labels:'' pre" by simp_all
    have "replacedString exprStr = replacedString pre @ ''labels: labels(this)'' @ replacedString post"
      using replacedString_bare_labels [OF sh, of post] t by (simp only:)
    then show ?thesis by (simp add: s)
  qed
  have 3: "serializeColumn exprCypher refCypher col env
              = Inr (replacedString q @ ''id: id(this'' @ num @ '')'' @ replacedString post @ aliasText,
                     env2)"
    if "exprStr = q @ ''id:'' @ ws @ ''this'' @ num @ ''.id'' @ post
            \<and> (\<forall>c\<in>set ws. isSpace c) \<and> num \<noteq> [] \<and> (\<forall>c\<in>set num. isDigit c)
            \<and> (q = [] \<or> last q \<noteq> CHR ''.'')" for q ws num post
  proof -
    from that have t: "exprStr = q @ ''id:'' @ ws @ ''this'' @ num @ ''.id'' @ post"
      and h: "\<forall>c\<in>set ws. isSpace c" "num \<noteq> []" "\<forall>c\<in>set num. isDigit c"
        "q = [] \<or> last q \<noteq> CHR ''.''" by simp_all
    have "replacedString exprStr
            = replacedString q @ ''id: id(this'' @ num @ '')'' @ replacedString post"
      using replacedString_kept_id [OF h, of post] t by (simp only:)
    then show ?thesis by (simp add: s)
  qed
  have 4: "serializeColumn exprCypher refCypher col env
              = Inr (replacedString q @ ''labels: labels(this'' @ num @ '')'' @ replacedString post
                     @ aliasText, env2)"
    if "exprStr = q @ ''labels:'' @ ws @ ''this'' @ num @ ''.labels'' @ post
            \<and> (\<forall>c\<in>set ws. isSpace c) \<and> num \<noteq> [] \<and> (\<forall>c\<in>set num. isDigit c)
            \<and> (q = [] \<or> last q \<noteq> CHR ''.'')" for q ws num post
  proof -
    from that have t: "exprStr = q @ ''labels:'' @ ws @ ''this'' @ num @ ''.labels'' @ post"
      and h: "\<forall>c\<in>set ws. isSpace c" "num \<noteq> []" "\<forall>c\<in>set num. isDigit c"
        "q = [] \<or> last q \<noteq> CHR ''.''" by simp_all
    have "replacedString exprStr
            = replacedString q @ ''labels: labels(this'' @ num @ '')'' @ replacedString post"
      using replacedString_kept_labels [OF h, of post] t by (simp only:)
    then show ?thesis by (simp add: s)
  qed
  have 5: "\<exists>out num.
             (num = [] \<or> ((\<forall>c\<in>set num. isDigit c)
                \<and> (\<exists>a ws. pre = a @ ''id:'' @ ws @ ''this'' @ num \<and> (\<forall>c\<in>set ws. isSpace c)))) \<and>
             serializeColumn exprCypher refCypher col env
               = Inr (out @ ''id: id(this'' @ num @ '')'' @ replacedString post @ aliasText, env2)"
    if "exprStr = pre @ ''.id'' @ post" for pre post
  proof -
    from replacedString_occurrence_id [of pre post] obtain out num where
      n: "num = [] \<or> ((\<forall>c\<in>set num. isDigit c)
                \<and> (\<exists>a ws. pre = a @ ''id:'' @ ws @ ''this'' @ num \<and> (\<forall>c\<in>set ws. isSpace c)))"
      and r: "replacedString (pre @ ''.id'' @ post)
                = out @ ''id: id(this'' @ num @ '')'' @ replacedString post" by blast
    from r that have "serializeColumn exprCypher refCypher col env
               = Inr (out @ ''id: id(this'' @ num @ '')'' @ replacedString post @ aliasText, env2)"
      by (simp add: s)
    with n show ?thesis by blast
  qed
  have 6: "\<exists>out num.
             (num = [] \<or> ((\<forall>c\<in>set num. isDigit c)
                \<and> (\<exists>a ws. pre = a @ ''labels:'' @ ws @ ''this'' @ num \<and> (\<forall>c\<in>set ws. isSpace c)))) \<and>
             serializeColumn exprCypher refCypher col env
               = Inr (out @ ''labels: labels(this'' @ num @ '')'' @ replacedString post @ aliasText,
                      env2)"
    if "exprStr = pre @ ''.labels'' @ post" for pre post
  proof -
    from replacedString_occurrence_labels [of pre post] obtain out num where
      n: "num = [] \<or> ((\<forall>c\<in>set num. isDigit c)
                \<and> (\<exists>a ws. pre = a @ ''labels:'' @ ws @ ''this'' @ num \<and> (\<forall>c\<in>set ws. isSpace c)))"
      and r: "replacedString (pre @ ''.labels'' @ post)
                = out @ ''labels: labels(this'' @ num @ '')'' @ replacedString post" by blast
    from r that have "serializeColumn exprCypher refCypher col env
               = Inr (out @ ''labels: labels(this'' @ num @ '')'' @ replacedString post @ aliasText, env2)"
      by (simp add: s)
    with n show ?thesis by blast
  qed
  have 7: "\<exists>out. serializeColumn exprCypher refCypher col env
             = Inr (out @ '':'' @ ws @ ''this'' @ num @ ''id: id(this)'' @ replacedString post
                    @ aliasText, env2)"
    if "exprStr = q @ ''.id:'' @ ws @ ''this'' @ num @ ''.id'' @ post
            \<and> (\<forall>c\<in>set ws. isSpace c) \<and> (\<forall>c\<in>set num. isDigit c)" for q ws num post
  proof -
    from that have t: "exprStr = q @ ''.id:'' @ ws @ ''this'' @ num @ ''.id'' @ post"
      and h: "\<forall>c\<in>set ws. isSpace c" "\<forall>c\<in>set num. isDigit c" by simp_all
    from replacedString_overlapped_id [OF h, of q post] obtain out where
      "replacedString (q @ ''.id:'' @ ws @ ''this'' @ num @ ''.id'' @ post)
         = out @ '':'' @ ws @ ''this'' @ num @ ''id: id(this)'' @ replacedString post" by blast
    with t have "serializeColumn exprCypher refCypher col env
             = Inr (out @ '':'' @ ws @ ''this'' @ num @ ''id: id(this)'' @ replacedString post
                    @ aliasText, env2)"
      by (simp add: s)
    then show ?thesis by blast
  qed
  have 8: "\<exists>out. serializeColumn exprCypher refCypher col env
             = Inr (out @ '':'' @ ws @ ''this'' @ num @ ''labels: labels(this)'' @ replacedString post
                    @ aliasText, env2)"
    if "exprStr = q @ ''.labels:'' @ ws @ ''this'' @ num @ ''.labels'' @ post
            \<and> (\<forall>c\<in>set ws. isSpace c) \<and> (\<forall>c\<in>set num. isDigit c)" for q ws num post
  proof -
    from that have t: "exprStr = q @ ''.labels:'' @ ws @ ''this'' @ num @ ''.labels'' @ post"
      and h: "\<forall>c\<in>set ws. isSpace c" "\<forall>c\<in>set num. isDigit c" by simp_all
    from replacedString_overlapped_labels [OF h, of q post] obtain out where
      "replacedString (q @ ''.labels:'' @ ws @ ''this'' @ num @ ''.labels'' @ post)
         = out @ '':'' @ ws @ ''this'' @ num @ ''labels: labels(this)'' @ replacedString post"
      by blast
    with t have "serializeColumn exprCypher refCypher col env
             = Inr (out @ '':'' @ ws @ ''this'' @ num @ ''labels: labels(this)'' @ replacedString post
                    @ aliasText, env2)"
      by (simp add: s)
    then show ?thesis by blast
  qed
  show ?thesis
    apply (intro conjI allI impI)
    subgoal for pre post by (rule 1)
    subgoal for pre post by (rule 2)
    subgoal for q ws num post by (rule 3)
    subgoal for q ws num post by (rule 4)
    subgoal for pre post by (rule 5)
    subgoal for pre post by (rule 6)
    subgoal for q ws num post by (rule 7)
    subgoal for q ws num post by (rule 8)
    done
qed


theorem serializeColumn_bare_access_witness:
  "\<not> ends_with_numbered ''id:'' ''{ key: this5''
   \<and> serializeColumn RawCypher_getCypher RawCypher_getCypher
        (Aliased ''{ key: this5.id }'' (AliasRef ''x'')) ()
     = (Inr (''{ key: this5id: id(this) } AS x'', ()) :: unit + string \<times> unit)
   \<and> serializeColumn RawCypher_getCypher RawCypher_getCypher
        (Aliased ''{ id:  this12.id }'' (AliasString ''y'')) ()
     = (Inr (''{ id: id(this12) } AS y'', ()) :: unit + string \<times> unit)
   \<and> \<not> ends_with_numbered ''labels:'' ''n''
   \<and> serializeColumn RawCypher_getCypher RawCypher_getCypher (Plain ''n.labels'') ()
     = (Inr (''nlabels: labels(this)'', ()) :: unit + string \<times> unit)
   \<and> serializeColumn RawCypher_getCypher RawCypher_getCypher
        (Aliased ''{ labels: this3.labels }'' (AliasRef ''z'')) ()
     = (Inr (''{ labels: labels(this3) } AS z'', ()) :: unit + string \<times> unit)"
proof -
  let ?c1 = "Aliased ''{ key: this5.id }'' (AliasRef ''x'') :: (string, string) ProjectionColumn"
  let ?c2 = "Aliased ''{ id:  this12.id }'' (AliasString ''y'') :: (string, string) ProjectionColumn"
  let ?c3 = "Plain ''n.labels'' :: (string, string) ProjectionColumn"
  let ?c4 = "Aliased ''{ labels: this3.labels }'' (AliasRef ''z'') :: (string, string) ProjectionColumn"
  have e1: "RawCypher_getCypher (columnExpr ?c1) ()
              = (Inr (''{ key: this5'' @ ''.id'' @ '' }'', ()) :: unit + string \<times> unit)"
    and e2: "RawCypher_getCypher (columnExpr ?c2) ()
              = (Inr (''{ '' @ ''id:'' @ ''  '' @ ''this'' @ ''12'' @ ''.id'' @ '' }'', ())
                  :: unit + string \<times> unit)"
    and e3: "RawCypher_getCypher (columnExpr ?c3) ()
              = (Inr (''n'' @ ''.labels'' @ [], ()) :: unit + string \<times> unit)"
    and e4: "RawCypher_getCypher (columnExpr ?c4) ()
              = (Inr (''{ '' @ ''labels:'' @ '' '' @ ''this'' @ ''3'' @ ''.labels'' @ '' }'', ())
                  :: unit + string \<times> unit)"
    by (simp_all add: RawCypher_getCypher_def)
  have a1: "aliasPart RawCypher_getCypher ?c1 () = (Inr ('' AS x'', ()) :: unit + string \<times> unit)"
    and a2: "aliasPart RawCypher_getCypher ?c2 () = (Inr ('' AS y'', ()) :: unit + string \<times> unit)"
    and a3: "aliasPart RawCypher_getCypher ?c3 () = (Inr ([], ()) :: unit + string \<times> unit)"
    and a4: "aliasPart RawCypher_getCypher ?c4 () = (Inr ('' AS z'', ()) :: unit + string \<times> unit)"
    by (simp_all add: RawCypher_getCypher_def)
  have s1: "\<not> ends_with_numbered ''id:'' ''{ key: this5''"
    by (simp add: ends_with_numbered_def isDigit_def isSpace_def)
  have s3: "\<not> ends_with_numbered ''labels:'' ''n''"
    by (simp add: ends_with_numbered_def isDigit_def isSpace_def)
  have r: "replacedString ''{ key: this5'' = ''{ key: this5''" "replacedString '' }'' = '' }''"
    "replacedString ''{ '' = ''{ ''" "replacedString ''n'' = ''n''" "replacedString [] = []"
    by (simp_all add: regex_eval)
  have "serializeColumn RawCypher_getCypher RawCypher_getCypher ?c1 ()
     = (Inr (replacedString ''{ key: this5'' @ ''id: id(this)'' @ replacedString '' }'' @ '' AS x'', ())
         :: unit + string \<times> unit)"
    using serializeColumn_bare_access [where exprCypher = RawCypher_getCypher and col = ?c1
        and env = "()" and refCypher = RawCypher_getCypher, OF e1 a1,
        THEN conjunct1, rule_format, of "''{ key: this5''" "'' }''"] s1
    by (simp only: simp_thms)
  then have 1: "serializeColumn RawCypher_getCypher RawCypher_getCypher ?c1 ()
     = (Inr (''{ key: this5id: id(this) } AS x'', ()) :: unit + string \<times> unit)"
    by (simp add: r)
  have "serializeColumn RawCypher_getCypher RawCypher_getCypher ?c2 ()
     = (Inr (replacedString ''{ '' @ ''id: id(this'' @ ''12'' @ '')'' @ replacedString '' }'' @ '' AS y'', ())
         :: unit + string \<times> unit)"
    using serializeColumn_bare_access [where exprCypher = RawCypher_getCypher and col = ?c2
        and env = "()" and refCypher = RawCypher_getCypher, OF e2 a2,
        THEN conjunct2, THEN conjunct2, THEN conjunct1, rule_format,
        of "''{ ''" "''  ''" "''12''" "'' }''"]
    by (simp add: isSpace_def isDigit_def)
  then have 2: "serializeColumn RawCypher_getCypher RawCypher_getCypher ?c2 ()
     = (Inr (''{ id: id(this12) } AS y'', ()) :: unit + string \<times> unit)"
    by (simp add: r)
  have "serializeColumn RawCypher_getCypher RawCypher_getCypher ?c3 ()
     = (Inr (replacedString ''n'' @ ''labels: labels(this)'' @ replacedString [] @ [], ())
         :: unit + string \<times> unit)"
    using serializeColumn_bare_access [where exprCypher = RawCypher_getCypher and col = ?c3
        and env = "()" and refCypher = RawCypher_getCypher, OF e3 a3,
        THEN conjunct2, THEN conjunct1, rule_format, of "''n''" "[]"] s3
    by (simp only: simp_thms)
  then have 3: "serializeColumn RawCypher_getCypher RawCypher_getCypher ?c3 ()
     = (Inr (''nlabels: labels(this)'', ()) :: unit + string \<times> unit)"
    by (simp add: r)
  have "serializeColumn RawCypher_getCypher RawCypher_getCypher ?c4 ()
     = (Inr (replacedString ''{ '' @ ''labels: labels(this'' @ ''3'' @ '')'' @ replacedString '' }''
             @ '' AS z'', ()) :: unit + string \<times> unit)"
    using serializeColumn_bare_access [where exprCypher = RawCypher_getCypher and col = ?c4
        and env = "()" and refCypher = RawCypher_getCypher, OF e4 a4,
        THEN conjunct2, THEN conjunct2, THEN conjunct2, THEN conjunct1, rule_format,
        of "''{ ''" "'' ''" "''3''" "'' }''"]
    by (simp add: isSpace_def isDigit_def)
  then have 4: "serializeColumn RawCypher_getCypher RawCypher_getCypher ?c4 ()
     = (Inr (''{ labels: labels(this3) } AS z'', ()) :: unit + string \<times> unit)"
    by (simp add: r)
  from s1 1 2 s3 3 4 show ?thesis by (intro conjI)
qed

section \<open>The column list of a projection\<close>

lemma filteredColumns_append:
  "filteredColumns (xs @ ys) = filteredColumns xs @ filteredColumns ys"
  by (induction xs rule: filteredColumns.induct) simp_all

lemma filteredColumns_length:
  "length (filteredColumns xs) = length (filter (\<lambda>v. \<not> isStarArg v) xs)"
  by (induction xs rule: filteredColumns.induct) simp_all

lemma list_ex_isStarArg: "list_ex isStarArg cols \<longleftrightarrow> Star \<in> set cols"
proof (induction cols)
  case Nil
  then show ?case by simp
next
  case (Cons v vs)
  then show ?case by (cases v) auto
qed

lemma fold_addColumns:
  "columns (fold addColumns calls p) = columns p @ filteredColumns (concat calls)
   \<and> isStar (fold addColumns calls p) = (isStar p \<or> Star \<in> set (concat calls))"
proof (induction calls arbitrary: p)
  case Nil
  then show ?case by simp
next
  case (Cons c cs)
  have "columns (addColumns c p) = columns p @ filteredColumns c"
    "isStar (addColumns c p) = (isStar p \<or> Star \<in> set c)"
    by (simp_all add: addColumns_def list_ex_isStarArg)
  with Cons [of "addColumns c p"] show ?case
    by (auto simp: filteredColumns_append)
qed

lemma map_render_length:
  "map_render r xs env = Inr (ss, env1) \<Longrightarrow> length ss = length xs"
proof (induction xs arbitrary: env ss)
  case Nil
  then show ?case by simp
next
  case (Cons x xs)
  then show ?case by (auto split: sum.splits)
qed

text \<open>
  C9, as amended. A projection built from the column list \<open>cols\<close> and extended by the calls
  \<open>addColumns c\<close> for the lists \<open>c\<close> of \<open>calls\<close> keeps the columns that are not \<open>"*"\<close>, in the
  order in which they came. If they render as \<open>strs\<close>, the projection renders as \<open>strs\<close>
  joined by a comma and a blank, with one \<open>*\<close> put in front when at least one \<open>"*"\<close> was
  given, however many there were and wherever they stood. The rendered column list then
  starts with \<open>*\<close>, and \<open>*\<close> is in it exactly once unless one of the other columns itself
  renders as \<open>*\<close>; it is in it as many times as among the other columns when no \<open>"*"\<close> was
  given.
\<close>

theorem Projection_single_leading_star:
  fixes exprCypher :: "('e, 'env, 'x) renderer" and refCypher :: "('r, 'env, 'x) renderer"
  assumes this_def: "this = fold addColumns calls (newProjection cols)"
    and "map_render (serializeColumn exprCypher refCypher)
             (filteredColumns (cols @ concat calls)) env = Inr (strs, env1)"
  shows "columns this = filteredColumns (cols @ concat calls)
    \<and> isStar this = (Star \<in> set (cols @ concat calls))
    \<and> length strs = length (filter (\<lambda>v. \<not> isStarArg v) (cols @ concat calls))
    \<and> (\<exists>columnsStrs.
          getCypher exprCypher refCypher this env = Inr (join '', '' columnsStrs, this, env1)
        \<and> columnsStrs = (if Star \<in> set (cols @ concat calls) then ''*'' # strs else strs)
        \<and> (Star \<in> set (cols @ concat calls) \<longrightarrow>
              hd columnsStrs = ''*'' \<and> tl columnsStrs = strs
              \<and> count_list columnsStrs ''*'' = 1 + count_list strs ''*'')
        \<and> (Star \<in> set (cols @ concat calls) \<and> ''*'' \<notin> set strs \<longrightarrow>
              count_list columnsStrs ''*'' = 1)
        \<and> (Star \<notin> set (cols @ concat calls) \<longrightarrow> columnsStrs = strs))"
proof -
  have n: "columns (newProjection cols :: ('e, 'r) Projection) = filteredColumns cols"
    "isStar (newProjection cols :: ('e, 'r) Projection) = (Star \<in> set cols)"
    by (simp_all add: newProjection_def addColumns_def list_ex_isStarArg)
  have c: "columns this = filteredColumns (cols @ concat calls)"
    unfolding this_def using fold_addColumns [of calls "newProjection cols"] n
    by (simp add: filteredColumns_append)
  have s: "isStar this = (Star \<in> set (cols @ concat calls))"
    unfolding this_def using fold_addColumns [of calls "newProjection cols"] n by auto
  have l: "length strs = length (filter (\<lambda>v. \<not> isStarArg v) (cols @ concat calls))"
    using map_render_length [OF assms(2)] by (simp only: filteredColumns_length)
  define columnsStrs where
    "columnsStrs = (if Star \<in> set (cols @ concat calls) then ''*'' # strs else strs)"
  have g: "getCypher exprCypher refCypher this env = Inr (join '', '' columnsStrs, this, env1)"
    using assms(2) by (simp add: getCypher_def getCypher_with_def c s columnsStrs_def)
  have h: "Star \<in> set (cols @ concat calls) \<longrightarrow>
              hd columnsStrs = ''*'' \<and> tl columnsStrs = strs
              \<and> count_list columnsStrs ''*'' = 1 + count_list strs ''*''"
    by (simp add: columnsStrs_def)
  have o: "Star \<in> set (cols @ concat calls) \<and> ''*'' \<notin> set strs \<longrightarrow>
              count_list columnsStrs ''*'' = 1"
    by (simp add: columnsStrs_def count_list_0_iff)
  have z: "Star \<notin> set (cols @ concat calls) \<longrightarrow> columnsStrs = strs"
    by (simp add: columnsStrs_def)
  from g h o z have "\<exists>cs. getCypher exprCypher refCypher this env = Inr (join '', '' cs, this, env1)
        \<and> cs = (if Star \<in> set (cols @ concat calls) then ''*'' # strs else strs)
        \<and> (Star \<in> set (cols @ concat calls) \<longrightarrow>
              hd cs = ''*'' \<and> tl cs = strs \<and> count_list cs ''*'' = 1 + count_list strs ''*'')
        \<and> (Star \<in> set (cols @ concat calls) \<and> ''*'' \<notin> set strs \<longrightarrow> count_list cs ''*'' = 1)
        \<and> (Star \<notin> set (cols @ concat calls) \<longrightarrow> cs = strs)"
    by (intro exI [of _ columnsStrs] conjI) (simp_all only: columnsStrs_def)
  with c s l show ?thesis by (intro conjI)
qed

theorem Projection_single_leading_star_witness:
  "getCypher RawCypher_getCypher RawCypher_getCypher
     (fold addColumns [[Col (Plain ''b''), Star], [Star, Col (Aliased ''c'' (AliasString ''d''))]]
        (newProjection [Star, Col (Plain ''a''), Star])) ()
   = (Inr (''*, a, b, c AS d'',
           \<lparr> columns = [Plain ''a'', Plain ''b'', Aliased ''c'' (AliasString ''d'')], isStar = True \<rparr>,
           ()) :: unit + string \<times> (string, string) Projection \<times> unit)
   \<and> Star \<in> set ([Star, Col (Plain ''a''), Star]
          @ concat [[Col (Plain ''b''), Star], [Star, Col (Aliased ''c'' (AliasString ''d''))]]
        :: (string, string) ColumnArg list)
   \<and> ''*'' \<notin> set [''a'', ''b'', ''c AS d'']
   \<and> count_list [''*'', ''a'', ''b'', ''c AS d''] ''*'' = 1"
proof -
  let ?cols = "[Star, Col (Plain ''a''), Star] :: (string, string) ColumnArg list"
  let ?calls = "[[Col (Plain ''b''), Star], [Star, Col (Aliased ''c'' (AliasString ''d''))]]
      :: (string, string) ColumnArg list list"
  have r: "replacedString ''a'' = ''a''" "replacedString ''b'' = ''b''" "replacedString ''c'' = ''c''"
    by (simp_all add: regex_eval)
  have m: "map_render (serializeColumn RawCypher_getCypher RawCypher_getCypher)
       (filteredColumns (?cols @ concat ?calls)) ()
       = (Inr ([''a'', ''b'', ''c AS d''], ()) :: unit + string list \<times> unit)"
    by (simp add: serializeColumn_def RawCypher_getCypher_def r)
  have t: "fold addColumns ?calls (newProjection ?cols)
      = (\<lparr> columns = [Plain ''a'', Plain ''b'', Aliased ''c'' (AliasString ''d'')], isStar = True \<rparr>
          :: (string, string) Projection)"
    by (simp add: newProjection_def addColumns_def)
  have st: "Star \<in> set (?cols @ concat ?calls)" by simp
  have ns: "''*'' \<notin> set [''a'', ''b'', ''c AS d'']" by simp
  from Projection_single_leading_star [where exprCypher = RawCypher_getCypher
      and refCypher = RawCypher_getCypher and env = "()", OF refl m]
  obtain columnsStrs where
    g: "getCypher RawCypher_getCypher RawCypher_getCypher (fold addColumns ?calls (newProjection ?cols)) ()
          = (Inr (join '', '' columnsStrs, fold addColumns ?calls (newProjection ?cols), ())
              :: unit + string \<times> (string, string) Projection \<times> unit)"
    and cs: "columnsStrs = (if Star \<in> set (?cols @ concat ?calls)
                            then ''*'' # [''a'', ''b'', ''c AS d''] else [''a'', ''b'', ''c AS d''])"
    and one: "Star \<in> set (?cols @ concat ?calls) \<and> ''*'' \<notin> set [''a'', ''b'', ''c AS d'']
                \<longrightarrow> count_list columnsStrs ''*'' = 1"
    by blast
  from cs have cs': "columnsStrs = [''*'', ''a'', ''b'', ''c AS d'']" by simp
  from g have 1: "getCypher RawCypher_getCypher RawCypher_getCypher
     (fold addColumns ?calls (newProjection ?cols)) ()
   = (Inr (''*, a, b, c AS d'',
           \<lparr> columns = [Plain ''a'', Plain ''b'', Aliased ''c'' (AliasString ''d'')], isStar = True \<rparr>,
           ()) :: unit + string \<times> (string, string) Projection \<times> unit)"
    unfolding t cs' by simp
  from one st ns have "count_list columnsStrs ''*'' = 1" by (simp only: simp_thms)
  then have 2: "count_list [''*'', ''a'', ''b'', ''c AS d''] ''*'' = 1" by (simp only: cs')
  from 1 st ns 2 show ?thesis by (intro conjI)
qed

text \<open>
  C9 as stated fails: the class removes the \<open>"*"\<close> entries and does not look at what the
  other columns render as. A projection of \<open>"*"\<close> and of an expression that renders as \<open>*\<close>
  has one ordinary column and renders the column list \<open>*, *\<close>, with two columns \<open>*\<close>.
\<close>

theorem Projection_single_leading_star_counterexample:
  "getCypher RawCypher_getCypher RawCypher_getCypher (newProjection [Star, Col (Plain ''*'')]) ()
     = (Inr (''*, *'', \<lparr> columns = [Plain ''*''], isStar = True \<rparr>, ())
         :: unit + string \<times> (string, string) Projection \<times> unit)
   \<and> map_render (serializeColumn RawCypher_getCypher RawCypher_getCypher)
        (columns (newProjection [Star, Col (Plain ''*'')] :: (string, string) Projection)) ()
     = (Inr ([''*''], ()) :: unit + string list \<times> unit)
   \<and> count_list (''*'' # [''*'']) ''*'' = 2"
proof -
  have r: "replacedString ''*'' = ''*''" by (simp add: regex_eval)
  show ?thesis
    by (simp add: getCypher_def getCypher_with_def newProjection_def addColumns_def
          serializeColumn_def RawCypher_getCypher_def r)
qed

section \<open>Type predicates\<close>

lemma IsType_getCypher_eq:
  assumes "compile e env = Inr (exprCypher, env1)"
  shows "IsType_getCypher compile \<lparr> expr = e, type = ts, not = n, notNull_flag = nn \<rparr> env
     = Inr (exprCypher @ '' '' @ (if n then ''IS NOT'' else ''IS'') @ '' :: ''
              @ join '' | '' (map (\<lambda>t. compileType t env1 @ (if nn then '' NOT NULL'' else [])) ts),
            \<lparr> expr = e, type = ts, not = n, notNull_flag = nn \<rparr>, env1)"
  using assms by (simp add: IsType_getCypher_def)

text \<open>
  C10. A type predicate renders as the compiled expression, \<open>IS\<close> (\<open>IS NOT\<close> for the negated
  predicate), \<open>::\<close> and the types joined by \<open>|\<close>. After \<open>notNull()\<close> every type of the
  union, not only the last one, is followed by \<open>NOT NULL\<close>.
\<close>

theorem IsType_getCypher_format:
  assumes "compile e env = Inr (exprCypher, env1)"
  shows "IsType_getCypher compile (isType e ts) env
      = Inr (exprCypher @ '' IS :: '' @ join '' | '' (map (\<lambda>t. compileType t env1) ts),
             isType e ts, env1)
    \<and> IsType_getCypher compile (isNotType e ts) env
      = Inr (exprCypher @ '' IS NOT :: '' @ join '' | '' (map (\<lambda>t. compileType t env1) ts),
             isNotType e ts, env1)
    \<and> IsType_getCypher compile (notNull (isType e ts)) env
      = Inr (exprCypher @ '' IS :: ''
               @ join '' | '' (map (\<lambda>t. compileType t env1 @ '' NOT NULL'') ts),
             notNull (isType e ts), env1)
    \<and> IsType_getCypher compile (notNull (isNotType e ts)) env
      = Inr (exprCypher @ '' IS NOT :: ''
               @ join '' | '' (map (\<lambda>t. compileType t env1 @ '' NOT NULL'') ts),
             notNull (isNotType e ts), env1)"
  using assms
  by (simp add: IsType_getCypher_def isType_def isNotType_def newIsType_def notNull_def)

theorem IsType_getCypher_format_witness:
  "IsType_getCypher RawCypher_getCypher
      (notNull (isNotType ''val'' [Base INTEGER, ListType (Base STRING), Base LOCAL_DATETIME])) ()
    = (Inr (''val IS NOT :: INTEGER NOT NULL | LIST<STRING> NOT NULL | LOCAL DATETIME NOT NULL'',
            \<lparr> expr = ''val'', type = [Base INTEGER, ListType (Base STRING), Base LOCAL_DATETIME],
              not = True, notNull_flag = True \<rparr>, ())
        :: unit + string \<times> string IsType \<times> unit)"
proof -
  have h: "RawCypher_getCypher ''val'' () = (Inr (''val'', ()) :: unit + string \<times> unit)"
    by (simp add: RawCypher_getCypher_def)
  from IsType_getCypher_format [where compile = RawCypher_getCypher and e = "''val''"
      and env = "()", OF h,
      of "[Base INTEGER, ListType (Base STRING), Base LOCAL_DATETIME]"]
  show ?thesis
    by (simp add: isNotType_def newIsType_def notNull_def)
qed

section \<open>Rendering and the node\<close>

lemma serializeColumn_frame:
  assumes ex: "\<And>e s t s'. exprCypher e s = Inr (t, s') \<Longrightarrow> fst s' = fst s"
    and rf: "\<And>r s t s'. refCypher r s = Inr (t, s') \<Longrightarrow> fst s' = fst s"
    and r: "serializeColumn exprCypher refCypher col s = Inr (t, s')"
  shows "fst s' = fst s"
proof (cases col)
  case (Plain e)
  with r obtain c where "exprCypher e s = Inr (c, s')"
    by (auto simp: serializeColumn_def split: sum.splits)
  then show ?thesis by (rule ex)
next
  case (Aliased e al)
  with r obtain c s1 where e: "exprCypher e s = Inr (c, s1)"
    by (auto simp: serializeColumn_def split: sum.splits)
  show ?thesis
  proof (cases al)
    case (AliasString a)
    with r Aliased e have "s' = s1" by (simp add: serializeColumn_def)
    with ex [OF e] show ?thesis by simp
  next
    case (AliasRef x)
    with r Aliased e obtain a where "refCypher x s1 = Inr (a, s')"
      by (auto simp: serializeColumn_def split: sum.splits)
    from rf [OF this] ex [OF e] show ?thesis by simp
  qed
qed

lemma serializeColumn_part000_frame:
  assumes ex: "\<And>e s t s'. exprCypher e s = Inr (t, s') \<Longrightarrow> fst s' = fst s"
    and rf: "\<And>r s t s'. refCypher r s = Inr (t, s') \<Longrightarrow> fst s' = fst s"
    and r: "serializeColumn_part000 exprCypher refCypher col s = Inr (t, s')"
  shows "fst s' = fst s"
proof (cases col)
  case (Plain e)
  with r obtain c where "exprCypher e s = Inr (c, s')"
    by (auto simp: serializeColumn_part000_def split: sum.splits if_splits)
  then show ?thesis by (rule ex)
next
  case (Aliased e al)
  with r obtain c s1 where e: "exprCypher e s = Inr (c, s1)"
    by (auto simp: serializeColumn_part000_def split: sum.splits)
  show ?thesis
  proof (cases al)
    case (AliasString a)
    with r Aliased e have "s' = s1" by (simp add: serializeColumn_part000_def)
    with ex [OF e] show ?thesis by simp
  next
    case (AliasRef x)
    with r Aliased e obtain a where "refCypher x s1 = Inr (a, s')"
      by (auto simp: serializeColumn_part000_def split: sum.splits)
    from rf [OF this] ex [OF e] show ?thesis by simp
  qed
qed

text \<open>When the callback leaves the array as it is, \<open>map\<close> over the array in the state is the
  rendering of the elements it had at the start, one after the other.\<close>

lemma array_map_unchanged:
  assumes cb: "\<And>a s t s'. callback a s = Inr (t, s') \<Longrightarrow> arr s' = arr s"
  shows "\<forall>k\<in>set ks. k < length (arr s)
           \<Longrightarrow> array_map arr callback ks s = map_render callback (map (\<lambda>k. arr s ! k) ks) s"
proof (induction ks arbitrary: s)
  case Nil
  then show ?case by simp
next
  case (Cons k ks)
  then have k: "k < length (arr s)" and ks: "\<forall>j\<in>set ks. j < length (arr s)" by simp_all
  show ?case
  proof (cases "callback (arr s ! k) s")
    case (Inl x)
    with k show ?thesis by simp
  next
    case (Inr a)
    obtain t s1 where a: "a = (t, s1)" by (cases a)
    from cb [OF Inr [unfolded a]] have e: "arr s1 = arr s" .
    with ks have "\<forall>j\<in>set ks. j < length (arr s1)" by simp
    from Cons.IH [OF this] have "array_map arr callback ks s1
        = map_render callback (map (\<lambda>k. arr s ! k) ks) s1" by (simp add: e)
    with k Inr a show ?thesis by simp
  qed
qed

lemma map_render_frame:
  assumes cb: "\<And>a s t s'. callback a s = Inr (t, s') \<Longrightarrow> P s' = P s"
  shows "map_render callback xs s = Inr (ts, s') \<Longrightarrow> P s' = P s"
proof (induction xs arbitrary: s ts)
  case Nil
  then show ?case by simp
next
  case (Cons x xs)
  from Cons.prems obtain t s1 rest where 1: "callback x s = Inr (t, s1)"
    and 2: "map_render callback xs s1 = Inr (rest, s')"
    by (auto split: sum.splits)
  from Cons.IH [OF 2] cb [OF 1] show ?case by simp
qed

lemma getCypher_on_unchanged:
  assumes cb: "\<And>col s t s'. serialize col s = Inr (t, s') \<Longrightarrow> fst s' = fst s"
  shows "getCypher_on serialize s
     = (case getCypher_with serialize (fst s) s of Inl x \<Rightarrow> Inl x
        | Inr (t, this, s1) \<Rightarrow> Inr (t, s1))"
    and "getCypher_on serialize s = Inr (t, s') \<Longrightarrow> fst s' = fst s"
proof -
  let ?arr = "\<lambda>s :: ('a, 'b) Projection \<times> 'c. columns (fst s)"
  have cb': "\<And>a s t s'. serialize a s = Inr (t, s') \<Longrightarrow> ?arr s' = ?arr s"
    using cb by simp
  have "array_map ?arr serialize [0..<length (?arr s)] s
          = map_render serialize (map (\<lambda>k. ?arr s ! k) [0..<length (?arr s)]) s"
    by (rule array_map_unchanged [where arr = ?arr, OF cb']) auto
  then have m: "array_map ?arr serialize [0..<length (columns (fst s))] s
          = map_render serialize (columns (fst s)) s"
    by (simp add: map_nth)
  have f: "fst s1 = fst s" if "map_render serialize (columns (fst s)) s = Inr (ts, s1)" for ts s1
    using map_render_frame [where P = fst, OF cb that] .
  show 1: "getCypher_on serialize s
     = (case getCypher_with serialize (fst s) s of Inl x \<Rightarrow> Inl x
        | Inr (t, this, s1) \<Rightarrow> Inr (t, s1))"
  proof (cases "map_render serialize (columns (fst s)) s")
    case (Inl x)
    then show ?thesis by (simp add: getCypher_on_def getCypher_with_def m)
  next
    case (Inr a)
    obtain ts s1 where a: "a = (ts, s1)" by (cases a)
    from f [OF Inr [unfolded a]] Inr a show ?thesis
      by (simp add: getCypher_on_def getCypher_with_def m)
  qed
  assume r: "getCypher_on serialize s = Inr (t, s')"
  then obtain ts where "map_render serialize (columns (fst s)) s = Inr (ts, s')"
    by (auto simp: getCypher_on_def m split: sum.splits)
  then show "fst s' = fst s" by (rule f)
qed

lemma IsType_getCypher_on_unchanged:
  assumes cp: "\<And>e s t s'. compile e s = Inr (t, s') \<Longrightarrow> fst s' = fst s"
  shows "IsType_getCypher_on compile s
     = (case IsType_getCypher compile (fst s) s of Inl x \<Rightarrow> Inl x
        | Inr (t, this, s1) \<Rightarrow> Inr (t, s1))"
    and "IsType_getCypher_on compile s = Inr (t, s') \<Longrightarrow> fst s' = fst s"
proof -
  show "IsType_getCypher_on compile s
     = (case IsType_getCypher compile (fst s) s of Inl x \<Rightarrow> Inl x
        | Inr (t, this, s1) \<Rightarrow> Inr (t, s1))"
  proof (cases "compile (expr (fst s)) s")
    case (Inl x)
    then show ?thesis by (simp add: IsType_getCypher_on_def IsType_getCypher_def)
  next
    case (Inr a)
    obtain c s1 where a: "a = (c, s1)" by (cases a)
    from cp [OF Inr [unfolded a]] Inr a show ?thesis
      by (simp add: IsType_getCypher_on_def IsType_getCypher_def Let_def)
  qed
  assume "IsType_getCypher_on compile s = Inr (t, s')"
  then obtain c where "compile (expr (fst s)) s = Inr (c, s')"
    by (auto simp: IsType_getCypher_on_def Let_def split: sum.splits)
  then show "fst s' = fst s" by (rule cp)
qed

lemma onEnvironment_frame: "onEnvironment r a s = Inr (t, s') \<Longrightarrow> fst s' = fst s"
  by (auto simp: onEnvironment_def split: sum.splits)

text \<open>
  C4. Rendering leaves the node as it was. The renderers of the children are code of their
  own that can reach the node; when they leave it alone, as renderers do that work on the
  environment they are handed, then after \<open>getCypher\<close> the columns and the star flag of a
  projection (in both revisions) and the expression, the type list and the two flags of a
  type predicate are what they were before. When the node is rendered with one environment
  and then, as the first rendering has left it, with another one, each of the two texts is
  the one computed from the fields the node had at the start and from the environment of
  that rendering alone.
\<close>

theorem rendering_leaves_node_unchanged:
  fixes exprCypher :: "('e, ('e, 'r) Projection \<times> 'o, 'x) renderer"
    and refCypher :: "('r, ('e, 'r) Projection \<times> 'o, 'x) renderer"
    and compile :: "('f, 'f IsType \<times> 'p, 'y) renderer"
  assumes exprCypher_frame: "\<forall>e s t s'. exprCypher e s = Inr (t, s') \<longrightarrow> fst s' = fst s"
    and refCypher_frame: "\<forall>r s t s'. refCypher r s = Inr (t, s') \<longrightarrow> fst s' = fst s"
    and compile_frame: "\<forall>e s t s'. compile e s = Inr (t, s') \<longrightarrow> fst s' = fst s"
  shows "(getCypher_on (serializeColumn exprCypher refCypher) (this, envA) = Inr (textA, thisA, envA')
        \<and> getCypher_on (serializeColumn exprCypher refCypher) (thisA, envB) = Inr (textB, thisB, envB')
      \<longrightarrow> thisA = this \<and> thisB = this
        \<and> columns thisA = columns this \<and> isStar thisA = isStar this
        \<and> columns thisB = columns this \<and> isStar thisB = isStar this
        \<and> getCypher exprCypher refCypher this (this, envA) = Inr (textA, this, this, envA')
        \<and> getCypher exprCypher refCypher this (this, envB) = Inr (textB, this, this, envB'))
   \<and> (getCypher_on (serializeColumn_part000 exprCypher refCypher) (this, envA)
          = Inr (textA, thisA, envA')
        \<and> getCypher_on (serializeColumn_part000 exprCypher refCypher) (thisA, envB)
          = Inr (textB, thisB, envB')
      \<longrightarrow> thisA = this \<and> thisB = this
        \<and> columns thisA = columns this \<and> isStar thisA = isStar this
        \<and> columns thisB = columns this \<and> isStar thisB = isStar this
        \<and> getCypher_part000 exprCypher refCypher this (this, envA) = Inr (textA, this, this, envA')
        \<and> getCypher_part000 exprCypher refCypher this (this, envB) = Inr (textB, this, this, envB'))
   \<and> (IsType_getCypher_on compile (it, envT) = Inr (textT, itT, envT')
        \<and> IsType_getCypher_on compile (itT, envU) = Inr (textU, itU, envU')
      \<longrightarrow> itT = it \<and> itU = it
        \<and> expr itT = expr it \<and> type itT = type it \<and> not itT = not it
        \<and> notNull_flag itT = notNull_flag it
        \<and> expr itU = expr it \<and> type itU = type it \<and> not itU = not it
        \<and> notNull_flag itU = notNull_flag it
        \<and> IsType_getCypher compile it (it, envT) = Inr (textT, it, it, envT')
        \<and> IsType_getCypher compile it (it, envU) = Inr (textU, it, it, envU'))"
proof -
  have ex: "\<And>e s t s'. exprCypher e s = Inr (t, s') \<Longrightarrow> fst s' = fst s"
    using exprCypher_frame by blast
  have rf: "\<And>r s t s'. refCypher r s = Inr (t, s') \<Longrightarrow> fst s' = fst s"
    using refCypher_frame by blast
  have cp: "\<And>e s t s'. compile e s = Inr (t, s') \<Longrightarrow> fst s' = fst s"
    using compile_frame by blast
  have g: "thisA = this \<and> thisB = this
        \<and> getCypher_with serialize this (this, envA) = Inr (textA, this, this, envA')
        \<and> getCypher_with serialize this (this, envB) = Inr (textB, this, this, envB')"
    if f: "\<And>col s t s'. serialize col s = Inr (t, s') \<Longrightarrow> fst s' = fst s"
      and r: "getCypher_on serialize (this, envA) = Inr (textA, thisA, envA')
              \<and> getCypher_on serialize (thisA, envB) = Inr (textB, thisB, envB')"
    for serialize :: "(('e, 'r) ProjectionColumn, ('e, 'r) Projection \<times> 'o, 'x) renderer"
      and textA thisA envA' textB thisB envB'
  proof -
    from r have r1: "getCypher_on serialize (this, envA) = Inr (textA, thisA, envA')"
      and r2: "getCypher_on serialize (thisA, envB) = Inr (textB, thisB, envB')" by simp_all
    from getCypher_on_unchanged(2) [of serialize, OF f r1] have a: "thisA = this" by simp
    from getCypher_on_unchanged(2) [of serialize, OF f r2] a have b: "thisB = this" by simp
    from getCypher_on_unchanged(1) [of serialize "(this, envA)", OF f] r1 a
    have 1: "getCypher_with serialize this (this, envA) = Inr (textA, this, this, envA')"
      by (auto simp: getCypher_with_def split: sum.splits)
    from getCypher_on_unchanged(1) [of serialize "(this, envB)", OF f] r2 a b
    have 2: "getCypher_with serialize this (this, envB) = Inr (textB, this, this, envB')"
      by (auto simp: getCypher_with_def split: sum.splits)
    from a b 1 2 show ?thesis by simp
  qed
  have f1: "\<And>col s t s'. serializeColumn exprCypher refCypher col s = Inr (t, s') \<Longrightarrow> fst s' = fst s"
    using serializeColumn_frame [of exprCypher refCypher] ex rf by blast
  have f2: "\<And>col s t s'. serializeColumn_part000 exprCypher refCypher col s = Inr (t, s')
              \<Longrightarrow> fst s' = fst s"
    using serializeColumn_part000_frame [of exprCypher refCypher] ex rf by blast
  have i: "itT = it \<and> itU = it
        \<and> IsType_getCypher compile it (it, envT) = Inr (textT, it, it, envT')
        \<and> IsType_getCypher compile it (it, envU) = Inr (textU, it, it, envU')"
    if r: "IsType_getCypher_on compile (it, envT) = Inr (textT, itT, envT')
        \<and> IsType_getCypher_on compile (itT, envU) = Inr (textU, itU, envU')"
  proof -
    from r have r1: "IsType_getCypher_on compile (it, envT) = Inr (textT, itT, envT')"
      and r2: "IsType_getCypher_on compile (itT, envU) = Inr (textU, itU, envU')" by simp_all
    from IsType_getCypher_on_unchanged(2) [of compile, OF cp r1] have a: "itT = it" by simp
    from IsType_getCypher_on_unchanged(2) [of compile, OF cp r2] a have b: "itU = it" by simp
    from IsType_getCypher_on_unchanged(1) [of compile "(it, envT)", OF cp] r1 a
    have 1: "IsType_getCypher compile it (it, envT) = Inr (textT, it, it, envT')"
      by (auto simp: IsType_getCypher_def Let_def split: sum.splits)
    from IsType_getCypher_on_unchanged(1) [of compile "(it, envU)", OF cp] r2 a b
    have 2: "IsType_getCypher compile it (it, envU) = Inr (textU, it, it, envU')"
      by (auto simp: IsType_getCypher_def Let_def split: sum.splits)
    from a b 1 2 show ?thesis by simp
  qed
  show ?thesis
  proof (intro conjI impI)
    assume r: "getCypher_on (serializeColumn exprCypher refCypher) (this, envA) = Inr (textA, thisA, envA')
        \<and> getCypher_on (serializeColumn exprCypher refCypher) (thisA, envB) = Inr (textB, thisB, envB')"
    note h = g [OF f1 r]
    from h show "thisA = this" "thisB = this" "columns thisA = columns this"
      "isStar thisA = isStar this" "columns thisB = columns this" "isStar thisB = isStar this"
      by simp_all
    from h show "getCypher exprCypher refCypher this (this, envA) = Inr (textA, this, this, envA')"
      "getCypher exprCypher refCypher this (this, envB) = Inr (textB, this, this, envB')"
      by (simp_all add: getCypher_def)
  next
    assume r: "getCypher_on (serializeColumn_part000 exprCypher refCypher) (this, envA)
          = Inr (textA, thisA, envA')
        \<and> getCypher_on (serializeColumn_part000 exprCypher refCypher) (thisA, envB)
          = Inr (textB, thisB, envB')"
    note h = g [OF f2 r]
    from h show "thisA = this" "thisB = this" "columns thisA = columns this"
      "isStar thisA = isStar this" "columns thisB = columns this" "isStar thisB = isStar this"
      by simp_all
    from h show "getCypher_part000 exprCypher refCypher this (this, envA) = Inr (textA, this, this, envA')"
      "getCypher_part000 exprCypher refCypher this (this, envB) = Inr (textB, this, this, envB')"
      by (simp_all add: getCypher_part000_def)
  next
    assume r: "IsType_getCypher_on compile (it, envT) = Inr (textT, itT, envT')
        \<and> IsType_getCypher_on compile (itT, envU) = Inr (textU, itU, envU')"
    note h = i [OF r]
    from h show "itT = it" "itU = it" "expr itT = expr it" "type itT = type it" "not itT = not it"
      "notNull_flag itT = notNull_flag it" "expr itU = expr it" "type itU = type it"
      "not itU = not it" "notNull_flag itU = notNull_flag it"
      by simp_all
    from h show "IsType_getCypher compile it (it, envT) = Inr (textT, it, it, envT')"
      "IsType_getCypher compile it (it, envU) = Inr (textU, it, it, envU')"
      by simp_all
  qed
qed

text \<open>
  The condition on the renderers of the children is needed. A column expression whose
  rendering calls \<open>addColumns\<close> on the projection it belongs to changes the projection;
  \<open>getCypher\<close>, which reads \<open>isStar\<close> when the columns have been rendered, then puts the star
  in front.
\<close>

lemma rendering_sees_what_a_child_writes:
  "getCypher_on (serializeColumn (\<lambda>e s. Inr (e, addColumns_on [Star] s)) RawCypher_getCypher)
      (\<lparr> columns = [Plain ''a''], isStar = False \<rparr>, ())
     = (Inr (''*, a'', \<lparr> columns = [Plain ''a''], isStar = True \<rparr>, ())
         :: unit + string \<times> (string, string) Projection \<times> unit)"
proof -
  have r: "replacedString ''a'' = ''a''" by (simp add: regex_eval)
  show ?thesis
    by (simp add: getCypher_on_def serializeColumn_def addColumns_on_def addColumns_def r)
qed


theorem rendering_leaves_node_unchanged_witness:
  "getCypher_on (serializeColumn (onEnvironment astCypher) (onEnvironment astCypher))
      ((\<lparr> columns = [Aliased (Composite [Ref (Identity 0 VariableClass None), Syntax ''.name''])
                          (AliasRef (Ref (Identity 1 VariableClass (Some ''name''))))],
         isStar = True \<rparr> :: (string ast, string ast) Projection), freshEnvironment ''a_'' :: string Environment)
     = Inr (''*, a_var0.name AS name'',
            (\<lparr> columns = [Aliased (Composite [Ref (Identity 0 VariableClass None), Syntax ''.name''])
                          (AliasRef (Ref (Identity 1 VariableClass (Some ''name''))))],
         isStar = True \<rparr> :: (string ast, string ast) Projection),
            \<lparr> envPrefix = ''a_'',
              names = [(Identity 1 VariableClass (Some ''name''), ''name''),
                       (Identity 0 VariableClass None, ''a_var0'')],
              varCounter = 1, paramCounter = 0, parameterMap = [] \<rparr>)
   \<and> getCypher_on (serializeColumn (onEnvironment astCypher) (onEnvironment astCypher))
      ((\<lparr> columns = [Aliased (Composite [Ref (Identity 0 VariableClass None), Syntax ''.name''])
                          (AliasRef (Ref (Identity 1 VariableClass (Some ''name''))))],
         isStar = True \<rparr> :: (string ast, string ast) Projection), freshEnvironment ''b_'' :: string Environment)
     = Inr (''*, b_var0.name AS name'',
            (\<lparr> columns = [Aliased (Composite [Ref (Identity 0 VariableClass None), Syntax ''.name''])
                          (AliasRef (Ref (Identity 1 VariableClass (Some ''name''))))],
         isStar = True \<rparr> :: (string ast, string ast) Projection),
            \<lparr> envPrefix = ''b_'',
              names = [(Identity 1 VariableClass (Some ''name''), ''name''),
                       (Identity 0 VariableClass None, ''b_var0'')],
              varCounter = 1, paramCounter = 0, parameterMap = [] \<rparr>)
   \<and> getCypher (onEnvironment astCypher) (onEnvironment astCypher)
      (\<lparr> columns = [Aliased (Composite [Ref (Identity 0 VariableClass None), Syntax ''.name''])
                          (AliasRef (Ref (Identity 1 VariableClass (Some ''name''))))],
         isStar = True \<rparr> :: (string ast, string ast) Projection)
      ((\<lparr> columns = [Aliased (Composite [Ref (Identity 0 VariableClass None), Syntax ''.name''])
                          (AliasRef (Ref (Identity 1 VariableClass (Some ''name''))))],
         isStar = True \<rparr> :: (string ast, string ast) Projection), freshEnvironment ''a_'' :: string Environment)
     = Inr (''*, a_var0.name AS name'',
            (\<lparr> columns = [Aliased (Composite [Ref (Identity 0 VariableClass None), Syntax ''.name''])
                          (AliasRef (Ref (Identity 1 VariableClass (Some ''name''))))],
         isStar = True \<rparr> :: (string ast, string ast) Projection),
            (\<lparr> columns = [Aliased (Composite [Ref (Identity 0 VariableClass None), Syntax ''.name''])
                          (AliasRef (Ref (Identity 1 VariableClass (Some ''name''))))],
         isStar = True \<rparr> :: (string ast, string ast) Projection),
            \<lparr> envPrefix = ''a_'',
              names = [(Identity 1 VariableClass (Some ''name''), ''name''),
                       (Identity 0 VariableClass None, ''a_var0'')],
              varCounter = 1, paramCounter = 0, parameterMap = [] \<rparr>)
   \<and> getCypher (onEnvironment astCypher) (onEnvironment astCypher)
      (\<lparr> columns = [Aliased (Composite [Ref (Identity 0 VariableClass None), Syntax ''.name''])
                          (AliasRef (Ref (Identity 1 VariableClass (Some ''name''))))],
         isStar = True \<rparr> :: (string ast, string ast) Projection)
      ((\<lparr> columns = [Aliased (Composite [Ref (Identity 0 VariableClass None), Syntax ''.name''])
                          (AliasRef (Ref (Identity 1 VariableClass (Some ''name''))))],
         isStar = True \<rparr> :: (string ast, string ast) Projection), freshEnvironment ''b_'' :: string Environment)
     = Inr (''*, b_var0.name AS name'',
            (\<lparr> columns = [Aliased (Composite [Ref (Identity 0 VariableClass None), Syntax ''.name''])
                          (AliasRef (Ref (Identity 1 VariableClass (Some ''name''))))],
         isStar = True \<rparr> :: (string ast, string ast) Projection),
            (\<lparr> columns = [Aliased (Composite [Ref (Identity 0 VariableClass None), Syntax ''.name''])
                          (AliasRef (Ref (Identity 1 VariableClass (Some ''name''))))],
         isStar = True \<rparr> :: (string ast, string ast) Projection),
            \<lparr> envPrefix = ''b_'',
              names = [(Identity 1 VariableClass (Some ''name''), ''name''),
                       (Identity 0 VariableClass None, ''b_var0'')],
              varCounter = 1, paramCounter = 0, parameterMap = [] \<rparr>)
   \<and> IsType_getCypher_on (onEnvironment astCypher)
        (notNull (isType (Ref (Identity 0 VariableClass None)) [Base INTEGER, Base STRING]),
         freshEnvironment ''a_'' :: string Environment)
     = Inr (''a_var0 IS :: INTEGER NOT NULL | STRING NOT NULL'',
            (\<lparr> expr = Ref (Identity 0 VariableClass None), type = [Base INTEGER, Base STRING],
              not = False, notNull_flag = True \<rparr> :: string ast IsType),
            \<lparr> envPrefix = ''a_'', names = [(Identity 0 VariableClass None, ''a_var0'')],
              varCounter = 1, paramCounter = 0, parameterMap = [] \<rparr>)
   \<and> IsType_getCypher_on (onEnvironment astCypher)
        (notNull (isType (Ref (Identity 0 VariableClass None)) [Base INTEGER, Base STRING]),
         freshEnvironment ''b_'' :: string Environment)
     = Inr (''b_var0 IS :: INTEGER NOT NULL | STRING NOT NULL'',
            (\<lparr> expr = Ref (Identity 0 VariableClass None), type = [Base INTEGER, Base STRING],
              not = False, notNull_flag = True \<rparr> :: string ast IsType),
            \<lparr> envPrefix = ''b_'', names = [(Identity 0 VariableClass None, ''b_var0'')],
              varCounter = 1, paramCounter = 0, parameterMap = [] \<rparr>)
   \<and> IsType_getCypher (onEnvironment astCypher)
        (\<lparr> expr = Ref (Identity 0 VariableClass None), type = [Base INTEGER, Base STRING],
              not = False, notNull_flag = True \<rparr> :: string ast IsType)
        ((\<lparr> expr = Ref (Identity 0 VariableClass None), type = [Base INTEGER, Base STRING],
              not = False, notNull_flag = True \<rparr> :: string ast IsType), freshEnvironment ''a_'' :: string Environment)
     = Inr (''a_var0 IS :: INTEGER NOT NULL | STRING NOT NULL'',
            (\<lparr> expr = Ref (Identity 0 VariableClass None), type = [Base INTEGER, Base STRING],
              not = False, notNull_flag = True \<rparr> :: string ast IsType),
            (\<lparr> expr = Ref (Identity 0 VariableClass None), type = [Base INTEGER, Base STRING],
              not = False, notNull_flag = True \<rparr> :: string ast IsType),
            \<lparr> envPrefix = ''a_'', names = [(Identity 0 VariableClass None, ''a_var0'')],
              varCounter = 1, paramCounter = 0, parameterMap = [] \<rparr>)
   \<and> IsType_getCypher (onEnvironment astCypher)
        (\<lparr> expr = Ref (Identity 0 VariableClass None), type = [Base INTEGER, Base STRING],
              not = False, notNull_flag = True \<rparr> :: string ast IsType)
        ((\<lparr> expr = Ref (Identity 0 VariableClass None), type = [Base INTEGER, Base STRING],
              not = False, notNull_flag = True \<rparr> :: string ast IsType), freshEnvironment ''b_'' :: string Environment)
     = Inr (''b_var0 IS :: INTEGER NOT NULL | STRING NOT NULL'',
            (\<lparr> expr = Ref (Identity 0 VariableClass None), type = [Base INTEGER, Base STRING],
              not = False, notNull_flag = True \<rparr> :: string ast IsType),
            (\<lparr> expr = Ref (Identity 0 VariableClass None), type = [Base INTEGER, Base STRING],
              not = False, notNull_flag = True \<rparr> :: string ast IsType),
            \<lparr> envPrefix = ''b_'', names = [(Identity 0 VariableClass None, ''b_var0'')],
              varCounter = 1, paramCounter = 0, parameterMap = [] \<rparr>)"
proof -
  let ?P = "\<lparr> columns = [Aliased (Composite [Ref (Identity 0 VariableClass None), Syntax ''.name''])
                          (AliasRef (Ref (Identity 1 VariableClass (Some ''name''))))],
         isStar = True \<rparr> :: (string ast, string ast) Projection"
  let ?I = "\<lparr> expr = Ref (Identity 0 VariableClass None), type = [Base INTEGER, Base STRING],
              not = False, notNull_flag = True \<rparr> :: string ast IsType"
  let ?EA = "\<lparr> envPrefix = ''a_'',
              names = [(Identity 1 VariableClass (Some ''name''), ''name''),
                       (Identity 0 VariableClass None, ''a_var0'')],
              varCounter = 1, paramCounter = 0, parameterMap = [] \<rparr> :: string Environment"
  let ?EB = "\<lparr> envPrefix = ''b_'',
              names = [(Identity 1 VariableClass (Some ''name''), ''name''),
                       (Identity 0 VariableClass None, ''b_var0'')],
              varCounter = 1, paramCounter = 0, parameterMap = [] \<rparr> :: string Environment"
  let ?FA = "\<lparr> envPrefix = ''a_'', names = [(Identity 0 VariableClass None, ''a_var0'')],
              varCounter = 1, paramCounter = 0, parameterMap = [] \<rparr> :: string Environment"
  let ?FB = "\<lparr> envPrefix = ''b_'', names = [(Identity 0 VariableClass None, ''b_var0'')],
              varCounter = 1, paramCounter = 0, parameterMap = [] \<rparr> :: string Environment"
  let ?r = "onEnvironment astCypher
      :: (string ast, (string ast, string ast) Projection \<times> string Environment, error) renderer"
  let ?c = "onEnvironment astCypher
      :: (string ast, string ast IsType \<times> string Environment, error) renderer"
  have 1: "getCypher_on (serializeColumn ?r ?r) (?P, freshEnvironment ''a_'')
             = Inr (''*, a_var0.name AS name'', ?P, ?EA)"
    by code_simp
  have 2: "getCypher_on (serializeColumn ?r ?r) (?P, freshEnvironment ''b_'')
             = Inr (''*, b_var0.name AS name'', ?P, ?EB)"
    by code_simp
  have n: "notNull (isType (Ref (Identity 0 VariableClass None)) [Base INTEGER, Base STRING]) = ?I"
    by (simp add: notNull_def isType_def newIsType_def)
  have 3: "IsType_getCypher_on ?c (?I, freshEnvironment ''a_'')
     = Inr (''a_var0 IS :: INTEGER NOT NULL | STRING NOT NULL'', ?I, ?FA)"
    by code_simp
  have 4: "IsType_getCypher_on ?c (?I, freshEnvironment ''b_'')
     = Inr (''b_var0 IS :: INTEGER NOT NULL | STRING NOT NULL'', ?I, ?FB)"
    by code_simp
  have f: "\<forall>e s t s'. ?r e s = Inr (t, s') \<longrightarrow> fst s' = fst s"
    by (auto simp: onEnvironment_def split: sum.splits)
  have fc: "\<forall>e s t s'. ?c e s = Inr (t, s') \<longrightarrow> fst s' = fst s"
    by (auto simp: onEnvironment_def split: sum.splits)
  note t = rendering_leaves_node_unchanged [where exprCypher = ?r and refCypher = ?r
      and compile = ?c, OF f f fc]
  from t [THEN conjunct1, rule_format, OF conjI [OF 1 2]]
  have 5: "getCypher ?r ?r ?P (?P, freshEnvironment ''a_'')
             = Inr (''*, a_var0.name AS name'', ?P, ?P, ?EA)"
    and 6: "getCypher ?r ?r ?P (?P, freshEnvironment ''b_'')
             = Inr (''*, b_var0.name AS name'', ?P, ?P, ?EB)"
    by (simp_all only: simp_thms)
  from t [THEN conjunct2, THEN conjunct2, rule_format, OF conjI [OF 3 4]]
  have 7: "IsType_getCypher ?c ?I (?I, freshEnvironment ''a_'')
     = Inr (''a_var0 IS :: INTEGER NOT NULL | STRING NOT NULL'', ?I, ?I, ?FA)"
    and 8: "IsType_getCypher ?c ?I (?I, freshEnvironment ''b_'')
     = Inr (''b_var0 IS :: INTEGER NOT NULL | STRING NOT NULL'', ?I, ?I, ?FB)"
    by (simp_all only: simp_thms)
  from 1 2 5 6 3 4 7 8 show ?thesis unfolding n by (intro conjI)
qed

section \<open>Errors of the environment and of patterns\<close>

lemma allocate_error: "allocate env i = Inl x \<Longrightarrow> x = NameCollisionError"
  by (auto simp: allocate_def Let_def split: option.splits if_splits)

lemma nameOf_error: "nameOf env i = Inl x \<Longrightarrow> x = NameCollisionError"
  by (auto simp: nameOf_def split: option.splits sum.splits dest: allocate_error)

lemma recordParameter_error:
  "recordParameter env i v = Inl x \<Longrightarrow> x = NameCollisionError \<or> x = AmbiguousParameterBindingError"
  by (auto simp: recordParameter_def split: option.splits sum.splits if_splits dest: nameOf_error)

lemma renderProperties_error:
  "renderProperties props env = Inl x \<Longrightarrow> x \<noteq> IncompletePatternError"
proof (induction props arbitrary: env)
  case Nil
  then show ?case by simp
next
  case (Cons p props)
  obtain k i v where p: "p = (k, i, v)" by (cases p)
  from Cons.prems show ?case
    using Cons.IH recordParameter_error [of env i v]
    by (auto simp: p split: sum.splits)
qed

lemma propertyBlock_error: "propertyBlock props env = Inl x \<Longrightarrow> x \<noteq> IncompletePatternError"
  using renderProperties_error [of props env]
  by (auto simp: propertyBlock_def split: if_splits sum.splits)

lemma variablePart_error: "variablePart s i env = Inl x \<Longrightarrow> x \<noteq> IncompletePatternError"
  by (auto simp: variablePart_def split: if_splits sum.splits dest: nameOf_error)

lemma renderNode_error: "renderNode seen n env = Inl x \<Longrightarrow> x \<noteq> IncompletePatternError"
  by (auto simp: renderNode_def Let_def split: sum.splits
           dest: variablePart_error propertyBlock_error)

lemma renderRelationship_error:
  "renderRelationship seen r env = Inl x \<Longrightarrow> x \<noteq> IncompletePatternError"
  by (auto simp: renderRelationship_def Let_def split: sum.splits
           dest: variablePart_error propertyBlock_error)

lemma renderSteps_error: "renderSteps seen sts env = Inl x \<Longrightarrow> x \<noteq> IncompletePatternError"
proof (induction sts arbitrary: seen env)
  case Nil
  then show ?case by simp
next
  case (Cons st rest)
  obtain r n where st: "st = (r, n)" by (cases st)
  show ?case
  proof (cases "renderRelationship seen r env")
    case (Inl y)
    with Cons.prems st renderRelationship_error [OF Inl] show ?thesis by simp
  next
    case (Inr a)
    obtain ps env1 where a: "a = (ps, env1)" by (cases a)
    show ?thesis
    proof (cases "renderNode (relVariable r # seen) n env1")
      case (Inl y)
      with Cons.prems st Inr a renderNode_error [OF Inl] show ?thesis by simp
    next
      case (Inr b)
      obtain qs env2 where b: "b = (qs, env2)" by (cases b)
      from Cons.prems st \<open>renderRelationship seen r env = Inr a\<close> a Inr b
      have "renderSteps (nodeVariable n # relVariable r # seen) rest env2 = Inl x"
        by (auto split: sum.splits)
      then show ?thesis by (rule Cons.IH)
    qed
  qed
qed

lemma mergeExtra_error: "mergeExtra m extras = Inl x \<Longrightarrow> x = NameCollisionError"
  by (induction m extras rule: mergeExtra.induct) (auto split: if_splits)

text \<open>
  C7. Rendering a pattern left dangling after \<open>related\<close> fails with
  \<open>IncompletePatternError\<close>, whatever the pattern, the relationship element and the
  environment, and so does a build whose root is such a pattern; building the partial
  pattern itself raises nothing. A complete pattern never fails with this error, neither
  when rendered nor when built.
\<close>

theorem dangling_pattern_refuses_to_render:
  "renderPattern (Partial (related r p)) env = Inl IncompletePatternError
   \<and> renderPattern (Partial pp) env = Inl IncompletePatternError
   \<and> build (PatternNode (Partial pp)) pre extras = Inl IncompletePatternError
   \<and> renderPattern (Complete p) env \<noteq> Inl IncompletePatternError
   \<and> renderPattern (Complete (to n pp)) env \<noteq> Inl IncompletePatternError
   \<and> build (PatternNode (Complete p)) pre extras \<noteq> Inl IncompletePatternError"
proof -
  have c: "renderPattern (Complete q) e \<noteq> Inl IncompletePatternError" for q :: "'a Pattern" and e
    by (auto simp: renderPattern_def split: sum.splits
             dest: renderNode_error renderSteps_error)
  have "build (PatternNode (Complete p)) pre extras \<noteq> Inl IncompletePatternError"
    using c [of p "freshEnvironment pre"]
    by (auto simp: build_def finalize_def split: sum.splits dest: mergeExtra_error)
  then show ?thesis
    using c by (simp add: renderPattern_def build_def)
qed

section \<open>The names given by the environment\<close>

lemma bind_InrD:
  "(case f of Inl x \<Rightarrow> Inl x | Inr (a, e) \<Rightarrow> g a e) = Inr r \<Longrightarrow> \<exists>a e. f = Inr (a, e) \<and> g a e = Inr r"
  by (cases f) auto

lemma good_fresh: "good (freshEnvironment p)"
  by (simp add: good_def freshEnvironment_def)

lemma sound_no_names: "\<forall>i n. Name i n \<notin> set ps \<Longrightarrow> sound env ps env"
  by (simp add: sound_def extends_def)

lemma extends_trans: "extends a b \<Longrightarrow> extends b c \<Longrightarrow> extends a c"
  by (simp add: extends_def)

lemma sound_trans:
  assumes "sound env ps env1" "sound env1 qs env2"
  shows "sound env (ps @ qs) env2"
  unfolding sound_def
proof (intro impI)
  assume g: "good env"
  with assms(1) have 1: "good env1" "extends env env1"
    "\<forall>i n. Name i n \<in> set ps \<longrightarrow> map_of (names env1) i = Some n"
    by (simp_all add: sound_def)
  with assms(2) have 2: "good env2" "extends env1 env2"
    "\<forall>i n. Name i n \<in> set qs \<longrightarrow> map_of (names env2) i = Some n"
    by (simp_all add: sound_def)
  have "\<forall>i n. Name i n \<in> set ps \<longrightarrow> map_of (names env2) i = Some n"
    using 1(3) 2(2) by (simp add: extends_def)
  with 2 1(2) show "good env2 \<and> extends env env2 \<and>
      (\<forall>i n. Name i n \<in> set (ps @ qs) \<longrightarrow> map_of (names env2) i = Some n)"
    using extends_trans [OF 1(2) 2(2)] by auto
qed

lemma sound_subset:
  "sound env ps env' \<Longrightarrow> \<forall>i n. Name i n \<in> set qs \<longrightarrow> Name i n \<in> set ps \<Longrightarrow> sound env qs env'"
  by (simp add: sound_def)

lemma counterOf_parameterMap: "counterOf (env\<lparr> parameterMap := m \<rparr>) c = counterOf env c"
  by (cases c) (simp_all add: counterOf_def)

lemma counterOf_names: "counterOf (env\<lparr> names := m \<rparr>) c = counterOf env c"
  by (cases c) (simp_all add: counterOf_def)

lemma good_parameterMap: "good (env\<lparr> parameterMap := m \<rparr>) = good env"
  unfolding good_def counterOf_parameterMap by simp

lemma extends_parameterMap: "extends env (env1\<lparr> parameterMap := m \<rparr>) = extends env env1"
  unfolding extends_def by simp

lemma names_parameterMap: "names (env\<lparr> parameterMap := m \<rparr>) = names env"
  by simp

lemma sound_parameterMap:
  "sound env ps env1 \<Longrightarrow> sound env ps (env1\<lparr> parameterMap := m \<rparr>)"
  unfolding sound_def good_parameterMap extends_parameterMap names_parameterMap .

text \<open>The decimal numeral of a number can be read back, so different numbers have different
  numerals, and the names generated for two classes or from two counter values differ.\<close>

lemma of_char_digitChar: "d < 10 \<Longrightarrow> (of_char (digitChar d) :: nat) = 48 + d"
  by (simp add: digitChar_def)

lemma showNat_value: "foldl (\<lambda>a c. 10 * a + (of_char c - 48)) 0 (showNat n) = n"
proof (induction n rule: showNat.induct)
  case (1 n)
  show ?case
  proof (cases "n < 10")
    case True
    then show ?thesis by (simp add: showNat.simps [of n] of_char_digitChar)
  next
    case False
    then have "foldl (\<lambda>a c. 10 * a + (of_char c - 48)) 0 (showNat (n div 10)) = n div 10"
      using 1 by simp
    then show ?thesis using False by (simp add: showNat.simps [of n] of_char_digitChar)
  qed
qed

lemma showNat_inj: "showNat k = showNat l \<Longrightarrow> k = l"
  by (metis showNat_value)

lemma generated_name_inj:
  assumes "pre @ classTag c @ showNat k = pre @ classTag d @ showNat l"
  shows "c = d \<and> k = l"
proof -
  from assms have e: "classTag c @ showNat k = classTag d @ showNat l" by simp
  then have "c = d" by (cases c; cases d) simp_all
  with e show ?thesis by (simp add: showNat_inj)
qed

lemma counterOf_advance:
  "counterOf (advance c env) d = (if c = d then counterOf env d + 1 else counterOf env d)"
  by (cases c; cases d) (simp_all add: counterOf_def advance_def)

lemma good_inj:
  assumes "good env" "map_of (names env) a = Some m" "map_of (names env) b = Some m" "a \<noteq> b"
  shows "(explicitName a = None) \<noteq> (explicitName b = None)"
proof -
  from assms(1) [unfolded good_def, THEN conjunct1]
  have "map_of (names env) a = Some m \<and> map_of (names env) b = Some m \<and> a \<noteq> b \<longrightarrow>
          (explicitName a = None) \<noteq> (explicitName b = None)" by (elim allE)
  with assms(2-4) show ?thesis by (simp only: simp_thms)
qed

lemma good_shape:
  assumes "good env" "map_of (names env) a = Some m"
  shows "nameShape (envPrefix env) a m"
proof -
  from assms(1) [unfolded good_def, THEN conjunct2, THEN conjunct1]
  have "map_of (names env) a = Some m \<longrightarrow> nameShape (envPrefix env) a m" by (elim allE)
  with assms(2) show ?thesis by (simp only: simp_thms)
qed

lemma good_bound:
  assumes "good env" "map_of (names env) a = Some m" "explicitName a = None"
  shows "\<exists>k<counterOf env (idclass a). m = envPrefix env @ classTag (idclass a) @ showNat k"
proof -
  from assms(1) [unfolded good_def, THEN conjunct2, THEN conjunct2]
  have "map_of (names env) a = Some m \<and> explicitName a = None \<longrightarrow>
          (\<exists>k<counterOf env (idclass a). m = envPrefix env @ classTag (idclass a) @ showNat k)"
    by (elim allE)
  with assms(2,3) show ?thesis by (simp only: simp_thms)
qed

lemma allocate_Inr:
  assumes "allocate env i = Inr (n, env1)"
  shows "names env1 = names env \<and> envPrefix env1 = envPrefix env
       \<and> nameShape (envPrefix env) i n
       \<and> (case explicitName i of Some x \<Rightarrow> \<not> taken env i n \<and> env1 = env
          | None \<Rightarrow> n = envPrefix env @ classTag (idclass i) @ showNat (counterOf env (idclass i))
                    \<and> env1 = advance (idclass i) env)"
proof (cases "explicitName i")
  case None
  with assms have n: "n = envPrefix env @ classTag (idclass i) @ showNat (counterOf env (idclass i))"
    and e: "env1 = advance (idclass i) env"
    by (auto simp: allocate_def)
  from e have "names env1 = names env" "envPrefix env1 = envPrefix env"
    by (cases "idclass i"; simp add: advance_def)+
  moreover have "nameShape (envPrefix env) i n" using None n by (auto simp: nameShape_def)
  ultimately show ?thesis using None n e by simp
next
  case (Some x)
  with assms show ?thesis
    by (auto simp: allocate_def nameShape_def split: if_splits)
qed

lemma not_taken: "\<not> taken env i n \<Longrightarrow> map_of (names env) j = Some n \<Longrightarrow> j = i"
proof (rule ccontr)
  assume t: "\<not> taken env i n" and m: "map_of (names env) j = Some n" and ne: "j \<noteq> i"
  from m have "(j, n) \<in> set (names env)" by (rule map_of_SomeD)
  with ne have "taken env i n" by (force simp: taken_def list_ex_iff)
  with t show False by simp
qed

text \<open>The name allocated for a new identity \<open>i\<close> is the name of an identity \<open>b\<close> already
  there only when \<open>i\<close> is anonymous and \<open>b\<close> named.\<close>

lemma allocate_fresh_name:
  assumes a: "allocate env i = Inr (n, env1)" and g: "good env"
    and b: "map_of (names env) b = Some n" "b \<noteq> i"
  shows "explicitName i = None \<and> explicitName b \<noteq> None"
proof (cases "explicitName i")
  case (Some x)
  with allocate_Inr [OF a] have "\<not> taken env i n" by simp
  from not_taken [OF this b(1)] b(2) show ?thesis by simp
next
  case None
  with allocate_Inr [OF a]
  have n: "n = envPrefix env @ classTag (idclass i) @ showNat (counterOf env (idclass i))" by simp
  have "explicitName b \<noteq> None"
  proof
    assume "explicitName b = None"
    from good_bound [OF g b(1) this] obtain k where k: "k < counterOf env (idclass b)"
      "n = envPrefix env @ classTag (idclass b) @ showNat k"
      by blast
    from generated_name_inj [of "envPrefix env" "idclass b" k "idclass i" "counterOf env (idclass i)"]
      k(2) n have "idclass b = idclass i" "k = counterOf env (idclass i)" by simp_all
    with k(1) show False by simp
  qed
  with None show ?thesis by simp
qed

lemma nameOf_sound:
  assumes "nameOf env i = Inr (n, env')"
  shows "sound env [Name i n] env'"
proof (cases "map_of (names env) i")
  case (Some m)
  with assms have "env' = env" "m = n" by (simp_all add: nameOf_def)
  with Some show ?thesis by (simp add: sound_def extends_def)
next
  case None
  with assms have "(case allocate env i of Inl x \<Rightarrow> Inl x
           | Inr (n, env1) \<Rightarrow> Inr (n, env1\<lparr> names := (i, n) # names env1 \<rparr>)) = Inr (n, env')"
    by (simp add: nameOf_def)
  from bind_InrD [OF this] obtain n0 env1 where a0: "allocate env i = Inr (n0, env1)"
    and e0: "Inr (n0, env1\<lparr> names := (i, n0) # names env1 \<rparr>)
              = (Inr (n, env') :: error + string \<times> 'a Environment)" by blast
  from e0 have "n0 = n" and e: "env' = env1\<lparr> names := (i, n) # names env1 \<rparr>" by auto
  with a0 have a: "allocate env i = Inr (n, env1)" by simp
  from allocate_Inr [OF a] have n1: "names env1 = names env" and p1: "envPrefix env1 = envPrefix env"
    and shape: "nameShape (envPrefix env) i n"
    and how: "case explicitName i of Some x \<Rightarrow> \<not> taken env i n \<and> env1 = env
          | None \<Rightarrow> n = envPrefix env @ classTag (idclass i) @ showNat (counterOf env (idclass i))
                    \<and> env1 = advance (idclass i) env"
    by simp_all
  have nm: "names env' = (i, n) # names env" and pf: "envPrefix env' = envPrefix env"
    using e n1 p1 by simp_all
  have cnt: "counterOf env' c = (if explicitName i = None \<and> idclass i = c
                                  then counterOf env c + 1 else counterOf env c)" for c
  proof (cases "explicitName i")
    case None
    with how have "env1 = advance (idclass i) env" by simp
    then have "counterOf env1 c = (if idclass i = c then counterOf env c + 1 else counterOf env c)"
      by (simp add: counterOf_advance)
    moreover have "counterOf env' c = counterOf env1 c" by (simp add: e counterOf_names)
    ultimately show ?thesis using None by simp
  next
    case (Some x)
    with how have "env1 = env" by simp
    moreover have "counterOf env' c = counterOf env1 c" by (simp add: e counterOf_names)
    ultimately show ?thesis using Some by simp
  qed
  show ?thesis
    unfolding sound_def
  proof (intro impI conjI)
    assume g: "good env"
    note inj = good_inj [OF g] and shp = good_shape [OF g] and bnd = good_bound [OF g]
    show "good env'"
      unfolding good_def
    proof (intro conjI allI impI)
      fix a b m
      assume "map_of (names env') a = Some m \<and> map_of (names env') b = Some m \<and> a \<noteq> b"
      then have ab: "map_of ((i, n) # names env) a = Some m" "map_of ((i, n) # names env) b = Some m"
        and ne: "a \<noteq> b" by (simp_all add: nm)
      show "(explicitName a = None) \<noteq> (explicitName b = None)"
      proof (cases "a = i")
        case True
        with ab(1) have mn: "m = n" by simp
        from True ne have bi: "b \<noteq> i" by simp
        with ab(2) mn have "map_of (names env) b = Some n" by simp
        from allocate_fresh_name [OF a g this bi] True show ?thesis by simp
      next
        case False
        with ab(1) have ma: "map_of (names env) a = Some m" by simp
        show ?thesis
        proof (cases "b = i")
          case True
          with ab(2) have "m = n" by simp
          with ma have "map_of (names env) a = Some n" by simp
          from allocate_fresh_name [OF a g this False] True show ?thesis by simp
        next
          case bi: False
          with ab(2) have "map_of (names env) b = Some m" by simp
          from inj [OF ma this ne] show ?thesis .
        qed
      qed
    next
      fix a m assume am: "map_of (names env') a = Some m"
      show "nameShape (envPrefix env') a m"
      proof (cases "a = i")
        case True
        with am nm have "m = n" by simp
        with shape True pf show ?thesis by simp
      next
        case False
        with am nm have ma: "map_of (names env) a = Some m" by simp
        from shp [OF ma] show ?thesis by (simp add: pf)
      qed
    next
      fix a m assume "map_of (names env') a = Some m \<and> explicitName a = None"
      then have am: "map_of (names env') a = Some m" and an: "explicitName a = None" by simp_all
      show "\<exists>k<counterOf env' (idclass a). m = envPrefix env' @ classTag (idclass a) @ showNat k"
      proof (cases "a = i")
        case True
        with am nm have "m = n" by simp
        moreover from how an True
        have "n = envPrefix env @ classTag (idclass i) @ showNat (counterOf env (idclass i))"
          by simp
        moreover have "counterOf env (idclass i) < counterOf env' (idclass i)"
          using an True by (simp add: cnt)
        ultimately show ?thesis
          using True pf by (intro exI [of _ "counterOf env (idclass i)"]) simp
      next
        case False
        with am nm have ma: "map_of (names env) a = Some m" by simp
        from bnd [OF ma an] obtain k where "k < counterOf env (idclass a)"
          "m = envPrefix env @ classTag (idclass a) @ showNat k" by blast
        moreover have "counterOf env (idclass a) \<le> counterOf env' (idclass a)" by (simp add: cnt)
        ultimately show ?thesis using pf by (intro exI [of _ k]) simp
      qed
    qed
    show "extends env env'"
      unfolding extends_def using None by (auto simp: nm pf)
    show "\<forall>a m. Name a m \<in> set [Name i n] \<longrightarrow> map_of (names env') a = Some m"
      by (simp add: nm)
  qed
qed

lemma recordParameter_sound:
  assumes "recordParameter env i v = Inr (n, env')"
  shows "sound env [Name i n] env'"
proof -
  from assms have "(case nameOf env i of Inl x \<Rightarrow> Inl x
      | Inr (n, env1) \<Rightarrow>
          (case map_of (parameterMap env1) n of
             Some w \<Rightarrow> if w = v then Inr (n, env1) else Inl AmbiguousParameterBindingError
           | None \<Rightarrow> Inr (n, env1\<lparr> parameterMap := (n, v) # parameterMap env1 \<rparr>))) = Inr (n, env')"
    by (simp add: recordParameter_def)
  from bind_InrD [OF this] obtain n0 env1 where n0: "nameOf env i = Inr (n0, env1)"
    and r: "(case map_of (parameterMap env1) n0 of
             Some w \<Rightarrow> if w = v then Inr (n0, env1) else Inl AmbiguousParameterBindingError
           | None \<Rightarrow> Inr (n0, env1\<lparr> parameterMap := (n0, v) # parameterMap env1 \<rparr>))
          = (Inr (n, env') :: error + string \<times> 'a Environment)" by blast
  from r have "n0 = n" by (cases "map_of (parameterMap env1) n0") (auto split: if_splits)
  with n0 have n1: "nameOf env i = Inr (n, env1)" by simp
  from r \<open>n0 = n\<close> have "env' = env1 \<or> env' = env1\<lparr> parameterMap := (n, v) # parameterMap env1 \<rparr>"
    by (cases "map_of (parameterMap env1) n0") (auto split: if_splits)
  then show ?thesis
  proof
    assume "env' = env1"
    with nameOf_sound [OF n1] show ?thesis by simp
  next
    assume "env' = env1\<lparr> parameterMap := (n, v) # parameterMap env1 \<rparr>"
    with sound_parameterMap [OF nameOf_sound [OF n1]] show ?thesis by simp
  qed
qed

lemma renderProperties_sound:
  "renderProperties props env = Inr (ps, env') \<Longrightarrow> sound env ps env'"
proof (induction props arbitrary: env ps)
  case Nil
  then show ?case by (simp add: sound_no_names)
next
  case (Cons p props)
  obtain k i v where p: "p = (k, i, v)" by (cases p)
  from Cons.prems p have
    "(case recordParameter env i v of Inl x \<Rightarrow> Inl x
      | Inr (n, env1) \<Rightarrow>
          (case renderProperties props env1 of Inl x \<Rightarrow> Inl x
           | Inr (ps, env2) \<Rightarrow>
               Inr ([Text (k @ '': $''), Name i n] @ (if props = [] then [] else [Text '', '']) @ ps,
                    env2))) = Inr (ps, env')" by simp
  from bind_InrD [OF this] obtain n env1 where
    r: "recordParameter env i v = Inr (n, env1)" and
    r2: "(case renderProperties props env1 of Inl x \<Rightarrow> Inl x
           | Inr (qs, env2) \<Rightarrow>
               Inr ([Text (k @ '': $''), Name i n] @ (if props = [] then [] else [Text '', '']) @ qs,
                    env2)) = Inr (ps, env')" by blast
  from bind_InrD [OF r2] obtain qs env2 where
    q0: "renderProperties props env1 = Inr (qs, env2)" and
    e0: "Inr ([Text (k @ '': $''), Name i n] @ (if props = [] then [] else [Text '', '']) @ qs, env2)
           = (Inr (ps, env') :: error + piece list \<times> 'a Environment)" by blast
  from e0 have ps: "ps = [Text (k @ '': $''), Name i n] @ (if props = [] then [] else [Text '', '']) @ qs"
    and "env2 = env'" by simp_all
  with q0 have q: "renderProperties props env1 = Inr (qs, env')" by simp
  have "sound env ([Name i n] @ qs) env'"
    using sound_trans [OF recordParameter_sound [OF r] Cons.IH [OF q]] .
  then show ?case by (rule sound_subset) (auto simp: ps)
qed

lemma propertyBlock_sound:
  assumes "propertyBlock props env = Inr (ps, env')"
  shows "sound env ps env'"
proof (cases "props = []")
  case True
  with assms show ?thesis by (simp add: propertyBlock_def sound_no_names)
next
  case False
  with assms have "(case renderProperties props env of Inl x \<Rightarrow> Inl x
            | Inr (ps, env1) \<Rightarrow> Inr ([Text '' {''] @ ps @ [Text ''}''], env1)) = Inr (ps, env')"
    by (simp add: propertyBlock_def)
  from bind_InrD [OF this] obtain qs env1 where q0: "renderProperties props env = Inr (qs, env1)"
    and e0: "Inr ([Text '' {''] @ qs @ [Text ''}''], env1)
               = (Inr (ps, env') :: error + piece list \<times> 'a Environment)" by blast
  from e0 have ps: "ps = [Text '' {''] @ qs @ [Text ''}'']" and "env1 = env'" by simp_all
  with q0 have q: "renderProperties props env = Inr (qs, env')" by simp
  show ?thesis by (rule sound_subset [OF renderProperties_sound [OF q]]) (auto simp: ps)
qed

lemma variablePart_sound:
  assumes "variablePart s i env = Inr (ps, env')"
  shows "sound env ps env'"
proof (cases s)
  case True
  with assms show ?thesis by (simp add: variablePart_def sound_no_names)
next
  case False
  with assms have "(case nameOf env i of Inl x \<Rightarrow> Inl x | Inr (n, env1) \<Rightarrow> Inr ([Name i n], env1))
                     = Inr (ps, env')"
    by (simp add: variablePart_def)
  from bind_InrD [OF this] obtain n env1 where "nameOf env i = Inr (n, env1)"
    and "Inr ([Name i n], env1) = (Inr (ps, env') :: error + piece list \<times> 'a Environment)" by blast
  then have "nameOf env i = Inr (n, env')" "ps = [Name i n]" by simp_all
  then show ?thesis using nameOf_sound by blast
qed

lemma renderNode_sound:
  assumes "renderNode seen n env = Inr (ps, env')"
  shows "sound env ps env'"
proof -
  define lt where "lt = nodeLabelsText seen n"
  from assms have "(case variablePart (nodeWithoutVariable n) (nodeVariable n) env of Inl x \<Rightarrow> Inl x
      | Inr (name, env1) \<Rightarrow>
          (case propertyBlock (if nodeVariable n \<in> set seen then [] else nodeProperties n) env1 of
             Inl x \<Rightarrow> Inl x
           | Inr (props, env2) \<Rightarrow>
               Inr ([Text ''(''] @ name @ [Text lt] @ props @ [Text '')''], env2))) = Inr (ps, env')"
    unfolding renderNode_def lt_def .
  from bind_InrD [OF this] obtain name env1 where
    v: "variablePart (nodeWithoutVariable n) (nodeVariable n) env = Inr (name, env1)" and
    r2: "(case propertyBlock (if nodeVariable n \<in> set seen then [] else nodeProperties n) env1 of
             Inl x \<Rightarrow> Inl x
           | Inr (props, env2) \<Rightarrow>
               Inr ([Text ''(''] @ name @ [Text lt] @ props @ [Text '')''], env2)) = Inr (ps, env')"
    by blast
  from bind_InrD [OF r2] obtain props env2 where
    b0: "propertyBlock (if nodeVariable n \<in> set seen then [] else nodeProperties n) env1
          = Inr (props, env2)" and
    e0: "Inr ([Text ''(''] @ name @ [Text lt] @ props @ [Text '')''], env2)
           = (Inr (ps, env') :: error + piece list \<times> 'a Environment)" by blast
  from e0 have ps: "ps = [Text ''(''] @ name @ [Text lt] @ props @ [Text '')'']"
    and "env2 = env'" by simp_all
  with b0 have b: "propertyBlock (if nodeVariable n \<in> set seen then [] else nodeProperties n) env1
          = Inr (props, env')" by simp
  have "sound env (name @ props) env'"
    using sound_trans [OF variablePart_sound [OF v] propertyBlock_sound [OF b]] .
  then show ?thesis by (rule sound_subset) (auto simp: ps)
qed

lemma renderRelationship_sound:
  assumes "renderRelationship seen r env = Inr (ps, env')"
  shows "sound env ps env'"
proof -
  define t1 where "t1 = relOpening r"
  define t2 where "t2 = relTypeText seen r @ quantifierText (relLength r)"
  define t3 where "t3 = relClosing r"
  from assms have "(case variablePart (relWithoutVariable r) (relVariable r) env of Inl x \<Rightarrow> Inl x
      | Inr (name, env1) \<Rightarrow>
          (case propertyBlock (if relVariable r \<in> set seen then [] else relProperties r) env1 of
             Inl x \<Rightarrow> Inl x
           | Inr (props, env2) \<Rightarrow>
               Inr ([Text t1] @ name @ [Text t2] @ props @ [Text t3], env2))) = Inr (ps, env')"
    unfolding renderRelationship_def t1_def t2_def t3_def .
  from bind_InrD [OF this] obtain name env1 where
    v: "variablePart (relWithoutVariable r) (relVariable r) env = Inr (name, env1)" and
    r2: "(case propertyBlock (if relVariable r \<in> set seen then [] else relProperties r) env1 of
             Inl x \<Rightarrow> Inl x
           | Inr (props, env2) \<Rightarrow>
               Inr ([Text t1] @ name @ [Text t2] @ props @ [Text t3], env2)) = Inr (ps, env')"
    by blast
  from bind_InrD [OF r2] obtain props env2 where
    b0: "propertyBlock (if relVariable r \<in> set seen then [] else relProperties r) env1
          = Inr (props, env2)" and
    e0: "Inr ([Text t1] @ name @ [Text t2] @ props @ [Text t3], env2)
           = (Inr (ps, env') :: error + piece list \<times> 'a Environment)" by blast
  from e0 have ps: "ps = [Text t1] @ name @ [Text t2] @ props @ [Text t3]"
    and "env2 = env'" by simp_all
  with b0 have b: "propertyBlock (if relVariable r \<in> set seen then [] else relProperties r) env1
          = Inr (props, env')" by simp
  have "sound env (name @ props) env'"
    using sound_trans [OF variablePart_sound [OF v] propertyBlock_sound [OF b]] .
  then show ?thesis by (rule sound_subset) (auto simp: ps)
qed

lemma renderSteps_sound:
  "renderSteps seen sts env = Inr (ps, env') \<Longrightarrow> sound env ps env'"
proof (induction sts arbitrary: seen env ps)
  case Nil
  then show ?case by (simp add: sound_no_names)
next
  case (Cons st rest)
  obtain r n where st: "st = (r, n)" by (cases st)
  from Cons.prems st have "(case renderRelationship seen r env of Inl x \<Rightarrow> Inl x
      | Inr (ps, env1) \<Rightarrow>
          (case renderNode (relVariable r # seen) n env1 of Inl x \<Rightarrow> Inl x
           | Inr (qs, env2) \<Rightarrow>
               (case renderSteps (nodeVariable n # relVariable r # seen) rest env2 of
                  Inl x \<Rightarrow> Inl x
                | Inr (rs, env3) \<Rightarrow> Inr (ps @ qs @ rs, env3)))) = Inr (ps, env')" by simp
  from bind_InrD [OF this] obtain as env1 where
    1: "renderRelationship seen r env = Inr (as, env1)" and
    r2: "(case renderNode (relVariable r # seen) n env1 of Inl x \<Rightarrow> Inl x
           | Inr (qs, env2) \<Rightarrow>
               (case renderSteps (nodeVariable n # relVariable r # seen) rest env2 of
                  Inl x \<Rightarrow> Inl x
                | Inr (rs, env3) \<Rightarrow> Inr (as @ qs @ rs, env3))) = Inr (ps, env')" by blast
  from bind_InrD [OF r2] obtain bs env2 where
    2: "renderNode (relVariable r # seen) n env1 = Inr (bs, env2)" and
    r3: "(case renderSteps (nodeVariable n # relVariable r # seen) rest env2 of
                  Inl x \<Rightarrow> Inl x
                | Inr (rs, env3) \<Rightarrow> Inr (as @ bs @ rs, env3)) = Inr (ps, env')" by blast
  from bind_InrD [OF r3] obtain cs env3 where
    30: "renderSteps (nodeVariable n # relVariable r # seen) rest env2 = Inr (cs, env3)" and
    e0: "Inr (as @ bs @ cs, env3) = (Inr (ps, env') :: error + piece list \<times> 'a Environment)"
    by blast
  from e0 have ps: "ps = as @ bs @ cs" and "env3 = env'" by simp_all
  with 30 have 3: "renderSteps (nodeVariable n # relVariable r # seen) rest env2 = Inr (cs, env')"
    by simp
  show ?case
    unfolding ps
    by (rule sound_trans [OF renderRelationship_sound [OF 1]
          sound_trans [OF renderNode_sound [OF 2] Cons.IH [OF 3]]])
qed

lemma renderPattern_sound:
  assumes "renderPattern pv env = Inr (ps, env')"
  shows "sound env ps env'"
proof (cases pv)
  case (Partial pp)
  with assms show ?thesis by (simp add: renderPattern_def)
next
  case (Complete p)
  with assms have "(case renderNode [] (firstNode p) env of Inl x \<Rightarrow> Inl x
           | Inr (ps, env1) \<Rightarrow>
               (case renderSteps [nodeVariable (firstNode p)] (steps p) env1 of Inl x \<Rightarrow> Inl x
                | Inr (qs, env2) \<Rightarrow> Inr (ps @ qs, env2))) = Inr (ps, env')"
    by (simp add: renderPattern_def)
  from bind_InrD [OF this] obtain as env1 where
    1: "renderNode [] (firstNode p) env = Inr (as, env1)" and
    r2: "(case renderSteps [nodeVariable (firstNode p)] (steps p) env1 of Inl x \<Rightarrow> Inl x
                | Inr (qs, env2) \<Rightarrow> Inr (as @ qs, env2)) = Inr (ps, env')" by blast
  from bind_InrD [OF r2] obtain bs env2 where
    20: "renderSteps [nodeVariable (firstNode p)] (steps p) env1 = Inr (bs, env2)" and
    e0: "Inr (as @ bs, env2) = (Inr (ps, env') :: error + piece list \<times> 'a Environment)" by blast
  from e0 have ps: "ps = as @ bs" and "env2 = env'" by simp_all
  with 20 have 2: "renderSteps [nodeVariable (firstNode p)] (steps p) env1 = Inr (bs, env')" by simp
  show ?thesis
    unfolding ps by (rule sound_trans [OF renderNode_sound [OF 1] renderSteps_sound [OF 2]])
qed

lemma render_all_sound_aux:
  assumes "\<And>c env ps env'. c \<in> set cs \<Longrightarrow> render c env = Inr (ps, env') \<Longrightarrow> sound env ps env'"
  shows "render_all cs env = Inr (ps, env') \<Longrightarrow> sound env ps env'"
  using assms
proof (induction cs arbitrary: env ps)
  case Nil
  then show ?case by (simp add: sound_no_names)
next
  case (Cons c cs)
  from Cons.prems(1) have "(case render c env of Inl x \<Rightarrow> Inl x
      | Inr (ps, env1) \<Rightarrow>
          (case render_all cs env1 of Inl x \<Rightarrow> Inl x
           | Inr (qs, env2) \<Rightarrow> Inr (ps @ qs, env2))) = Inr (ps, env')" by simp
  from bind_InrD [OF this] obtain as env1 where
    1: "render c env = Inr (as, env1)" and
    r2: "(case render_all cs env1 of Inl x \<Rightarrow> Inl x
           | Inr (qs, env2) \<Rightarrow> Inr (as @ qs, env2)) = Inr (ps, env')" by blast
  from bind_InrD [OF r2] obtain bs env2 where
    20: "render_all cs env1 = Inr (bs, env2)" and
    e0: "Inr (as @ bs, env2) = (Inr (ps, env') :: error + piece list \<times> 'a Environment)" by blast
  from e0 have ps: "ps = as @ bs" and "env2 = env'" by simp_all
  with 20 have 2: "render_all cs env1 = Inr (bs, env')" by simp
  have a: "sound env as env1" using Cons.prems(2) [of c env as env1] 1 by simp
  have b: "sound env1 bs env'"
  proof (rule Cons.IH [OF 2])
    fix d e qs e' assume "d \<in> set cs" "render d e = Inr (qs, e')"
    then show "sound e qs e'" using Cons.prems(2) [of d e qs e'] by simp
  qed
  show ?case unfolding ps by (rule sound_trans [OF a b])
qed

lemma render_sound: "render t env = Inr (ps, env') \<Longrightarrow> sound env ps env'"
proof (induction t arbitrary: env ps env')
  case (Ref i)
  then obtain n where "nameOf env i = Inr (n, env')" "ps = [Name i n]"
    by (auto split: sum.splits)
  then show ?case using nameOf_sound by blast
next
  case (Param i v)
  then obtain n where r: "recordParameter env i v = Inr (n, env')" and ps: "ps = [Text ''$'', Name i n]"
    by (auto split: sum.splits)
  show ?case by (rule sound_subset [OF recordParameter_sound [OF r]]) (simp add: ps)
next
  case (Syntax s)
  then show ?case by (auto simp: sound_no_names)
next
  case (PatternNode pv)
  then show ?case by (simp add: renderPattern_sound)
next
  case (Composite children)
  from Composite.prems have r: "render_all children env = Inr (ps, env')" by simp
  show ?case
  proof (rule render_all_sound_aux [OF _ r])
    fix c e qs e' assume "c \<in> set children" "render c e = Inr (qs, e')"
    then show "sound e qs e'" by (rule Composite.IH)
  qed
qed

lemma build_Inr:
  assumes "build root pre extras = Inr (txt, parameters)"
  shows "\<exists>ps env. render root (freshEnvironment pre) = Inr (ps, env) \<and> txt = text_of ps \<and>
           good env \<and> envPrefix env = pre \<and>
           (\<forall>i n. Name i n \<in> set ps \<longrightarrow> map_of (names env) i = Some n)"
proof -
  from assms have "(case render root (freshEnvironment pre) of Inl x \<Rightarrow> Inl x
      | Inr (ps, env) \<Rightarrow>
          (case finalize env extras of Inl x \<Rightarrow> Inl x
           | Inr parameters \<Rightarrow> Inr (text_of ps, parameters))) = Inr (txt, parameters)"
    by (simp add: build_def)
  from bind_InrD [OF this] obtain ps env where r: "render root (freshEnvironment pre) = Inr (ps, env)"
    and f: "(case finalize env extras of Inl x \<Rightarrow> Inl x
           | Inr parameters \<Rightarrow> Inr (text_of ps, parameters))
          = (Inr (txt, parameters) :: error + string \<times> (string \<times> 'a) list)" by blast
  from f have t: "txt = text_of ps" by (cases "finalize env extras") simp_all
  have s: "sound (freshEnvironment pre) ps env" by (rule render_sound [OF r])
  have g0: "good (freshEnvironment pre :: 'a Environment)" by (rule good_fresh)
  from s g0 have g: "good env" unfolding sound_def by blast
  from s g0 have e: "extends (freshEnvironment pre) env" unfolding sound_def by blast
  from s g0 have m: "\<forall>i n. Name i n \<in> set ps \<longrightarrow> map_of (names env) i = Some n"
    unfolding sound_def by blast
  from e have p: "envPrefix env = pre" by (simp add: extends_def freshEnvironment_def)
  from r t g p m show ?thesis by blast
qed


text \<open>
  C8. When a build with a prefix succeeds, every name put out for a named identity is the
  name the caller gave, without the prefix, and every name put out for an anonymous identity
  is the prefix followed by the class tag and a number, so it begins with the prefix.
\<close>

theorem prefix_on_generated_names_only:
  assumes "build root pre extras = Inr (txt, parameters)"
  shows "\<exists>ps env. render root (freshEnvironment pre) = Inr (ps, env) \<and> txt = text_of ps \<and>
           (\<forall>i n. Name i n \<in> set ps \<longrightarrow>
              (case explicitName i of Some x \<Rightarrow> n = x
               | None \<Rightarrow> prefix pre n \<and> (\<exists>k. n = pre @ classTag (idclass i) @ showNat k)))"
proof -
  from build_Inr [OF assms] obtain ps env where
    r: "render root (freshEnvironment pre) = Inr (ps, env)" and t: "txt = text_of ps" and
    g: "good env" and p: "envPrefix env = pre" and
    m: "\<forall>i n. Name i n \<in> set ps \<longrightarrow> map_of (names env) i = Some n"
    by blast
  have shp: "\<And>a x. map_of (names env) a = Some x \<Longrightarrow> nameShape pre a x"
    using good_shape [OF g] p by simp
  have "case explicitName i of Some x \<Rightarrow> n = x
        | None \<Rightarrow> prefix pre n \<and> (\<exists>k. n = pre @ classTag (idclass i) @ showNat k)"
    if "Name i n \<in> set ps" for i n
  proof -
    from that m have "map_of (names env) i = Some n" by blast
    from shp [OF this] show ?thesis
      by (cases "explicitName i") (auto simp: nameShape_def)
  qed
  with r t show ?thesis by blast
qed

lemma example_build:
  "build (Composite [Ref (Identity 0 VariableClass None), Syntax '', '',
                     Ref (Identity 1 VariableClass (Some ''movie'')), Syntax '', '',
                     Ref (Identity 0 VariableClass None), Syntax '' = '',
                     Param (Identity 2 ParameterClass None) ''Keanu'']) ''q_'' []
     = Inr (''q_var0, movie, q_var0 = $q_param0'', [(''q_param0'', ''Keanu'')])"
  by code_simp

lemma example_render:
  "render (Composite [Ref (Identity 0 VariableClass None), Syntax '', '',
                     Ref (Identity 1 VariableClass (Some ''movie'')), Syntax '', '',
                     Ref (Identity 0 VariableClass None), Syntax '' = '',
                     Param (Identity 2 ParameterClass None) ''Keanu'']) (freshEnvironment ''q_'')
     = Inr ([Name (Identity 0 VariableClass None) ''q_var0'', Text '', '',
             Name (Identity 1 VariableClass (Some ''movie'')) ''movie'', Text '', '',
             Name (Identity 0 VariableClass None) ''q_var0'', Text '' = '', Text ''$'',
             Name (Identity 2 ParameterClass None) ''q_param0''],
            \<lparr> envPrefix = ''q_'',
              names = [(Identity 2 ParameterClass None, ''q_param0''),
                       (Identity 1 VariableClass (Some ''movie''), ''movie''),
                       (Identity 0 VariableClass None, ''q_var0'')],
              varCounter = 1, paramCounter = 1, parameterMap = [(''q_param0'', ''Keanu'')] \<rparr>)"
  by code_simp




theorem prefix_on_generated_names_only_witness:
  "build (Composite [Ref (Identity 0 VariableClass None), Syntax '', '',
                     Ref (Identity 1 VariableClass (Some ''movie'')), Syntax '', '',
                     Ref (Identity 0 VariableClass None), Syntax '' = '',
                     Param (Identity 2 ParameterClass None) ''Keanu'']) ''q_'' []
     = Inr (''q_var0, movie, q_var0 = $q_param0'', [(''q_param0'', ''Keanu'')])
   \<and> prefix ''q_'' ''q_var0'' \<and> prefix ''q_'' ''q_param0'' \<and> ''movie'' = ''movie''"
proof -
  let ?t = "Composite [Ref (Identity 0 VariableClass None), Syntax '', '',
                     Ref (Identity 1 VariableClass (Some ''movie'')), Syntax '', '',
                     Ref (Identity 0 VariableClass None), Syntax '' = '',
                     Param (Identity 2 ParameterClass None) ''Keanu'']"
  note b = example_build
  from prefix_on_generated_names_only [OF b] obtain ps env where
    r: "render ?t (freshEnvironment ''q_'') = Inr (ps, env)" and
    a: "\<forall>i n. Name i n \<in> set ps \<longrightarrow>
              (case explicitName i of Some x \<Rightarrow> n = x
               | None \<Rightarrow> prefix ''q_'' n \<and> (\<exists>k. n = ''q_'' @ classTag (idclass i) @ showNat k))"
    by blast
  from r example_render have ps: "ps = [Name (Identity 0 VariableClass None) ''q_var0'', Text '', '',
             Name (Identity 1 VariableClass (Some ''movie'')) ''movie'', Text '', '',
             Name (Identity 0 VariableClass None) ''q_var0'', Text '' = '', Text ''$'',
             Name (Identity 2 ParameterClass None) ''q_param0'']"
    by simp
  have 1: "Name (Identity 0 VariableClass None) ''q_var0'' \<in> set ps"
    and 2: "Name (Identity 1 VariableClass (Some ''movie'')) ''movie'' \<in> set ps"
    and 3: "Name (Identity 2 ParameterClass None) ''q_param0'' \<in> set ps"
    by (simp_all add: ps)
  from a 1 have "prefix ''q_'' ''q_var0''" by fastforce
  moreover from a 3 have "prefix ''q_'' ''q_param0''" by fastforce
  moreover from a 2 have "''movie'' = ''movie''" by fastforce
  ultimately show ?thesis using b by blast
qed

section \<open>Rendering does not depend on which objects the identities are\<close>

lemma renameIdentity_fields [simp]:
  "explicitName (renameIdentity f i) = explicitName i"
  "idclass (renameIdentity f i) = idclass i"
  by (cases i; simp)+

lemma renameIdentity_eq:
  assumes "inj f"
  shows "renameIdentity f i = renameIdentity f j \<longleftrightarrow> i = j"
  using assms by (cases i; cases j) (auto dest: injD)

lemma renameEnv_fields [simp]:
  "envPrefix (renameEnv f env) = envPrefix env"
  "varCounter (renameEnv f env) = varCounter env"
  "paramCounter (renameEnv f env) = paramCounter env"
  "parameterMap (renameEnv f env) = parameterMap env"
  "names (renameEnv f env) = map (\<lambda>(i, n). (renameIdentity f i, n)) (names env)"
  by (simp_all add: renameEnv_def)

lemma map_of_rename:
  assumes "inj f"
  shows "map_of (map (\<lambda>(i, n). (renameIdentity f i, n)) xs) (renameIdentity f i) = map_of xs i"
  by (induction xs) (auto simp: renameIdentity_eq [OF assms])

lemma taken_rename:
  assumes "inj f"
  shows "taken (renameEnv f env) (renameIdentity f i) n = taken env i n"
proof -
  have "list_ex (\<lambda>entry. snd entry = n \<and> fst entry \<noteq> renameIdentity f i)
          (map (\<lambda>(j, m). (renameIdentity f j, m)) xs)
        = list_ex (\<lambda>entry. snd entry = n \<and> fst entry \<noteq> i) xs" for xs
    by (induction xs) (auto simp: renameIdentity_eq [OF assms])
  then show ?thesis by (simp add: taken_def)
qed

lemma counterOf_rename: "counterOf (renameEnv f env) c = counterOf env c"
  by (cases c) (simp_all add: counterOf_def)

lemma advance_rename: "advance c (renameEnv f env) = renameEnv f (advance c env)"
  by (cases c) (simp_all add: advance_def renameEnv_def)

lemma allocate_rename:
  assumes "inj f"
  shows "allocate (renameEnv f env) (renameIdentity f i) = renameNamed f (allocate env i)"
proof (cases "explicitName i")
  case None
  then show ?thesis
    by (simp add: allocate_def Let_def taken_rename [OF assms] counterOf_rename advance_rename
          renameNamed_def)
next
  case (Some x)
  then show ?thesis
    by (simp add: allocate_def taken_rename [OF assms] renameNamed_def)
qed

lemma renameEnv_names_update:
  "(renameEnv f env1)\<lparr> names := (renameIdentity f i, n) # names (renameEnv f env1) \<rparr>
     = renameEnv f (env1\<lparr> names := (i, n) # names env1 \<rparr>)"
  by (simp add: renameEnv_def)

lemma nameOf_rename:
  assumes "inj f"
  shows "nameOf (renameEnv f env) (renameIdentity f i) = renameNamed f (nameOf env i)"
proof (cases "map_of (names env) i")
  case (Some n)
  then show ?thesis
    by (simp add: nameOf_def map_of_rename [OF assms] renameNamed_def)
next
  case None
  show ?thesis
  proof (cases "allocate env i")
    case (Inl x)
    with None show ?thesis
      by (simp add: nameOf_def map_of_rename [OF assms] allocate_rename [OF assms] renameNamed_def)
  next
    case (Inr a)
    obtain n env1 where a: "a = (n, env1)" by (cases a)
    with None Inr show ?thesis
      by (simp add: nameOf_def map_of_rename [OF assms] allocate_rename [OF assms] renameNamed_def
            renameEnv_names_update)
  qed
qed

lemma renameEnv_parameterMap_update:
  "(renameEnv f env1)\<lparr> parameterMap := m \<rparr> = renameEnv f (env1\<lparr> parameterMap := m \<rparr>)"
  by (simp add: renameEnv_def)

lemma recordParameter_rename:
  assumes "inj f"
  shows "recordParameter (renameEnv f env) (renameIdentity f i) v
           = renameNamed f (recordParameter env i v)"
proof (cases "nameOf env i")
  case (Inl x)
  then show ?thesis
    by (simp add: recordParameter_def nameOf_rename [OF assms] renameNamed_def)
next
  case (Inr a)
  obtain n env1 where a: "a = (n, env1)" by (cases a)
  show ?thesis
  proof (cases "map_of (parameterMap env1) n")
    case None
    with Inr a show ?thesis
      by (simp add: recordParameter_def nameOf_rename [OF assms] renameNamed_def
            renameEnv_parameterMap_update)
  next
    case (Some w)
    with Inr a show ?thesis
      by (simp add: recordParameter_def nameOf_rename [OF assms] renameNamed_def)
  qed
qed

lemma renderProperties_rename:
  assumes "inj f"
  shows "renderProperties (renameProps f props) (renameEnv f env)
           = renamePieces f (renderProperties props env)"
proof (induction props arbitrary: env)
  case Nil
  then show ?case by (simp add: renameProps_def renamePieces_def)
next
  case (Cons p props)
  obtain k i v where p: "p = (k, i, v)" by (cases p)
  have c: "renameProps f ((k, i, v) # props) = (k, renameIdentity f i, v) # renameProps f props"
    by (simp add: renameProps_def)
  have e: "(renameProps f props = []) = (props = [])" by (simp add: renameProps_def)
  have "renderProperties (renameProps f ((k, i, v) # props)) (renameEnv f env)
           = renamePieces f (renderProperties ((k, i, v) # props) env)"
  proof (cases "recordParameter env i v")
    case (Inl x)
    then show ?thesis
      by (simp add: c recordParameter_rename [OF assms] renameNamed_def renamePieces_def)
  next
    case (Inr a)
    obtain n env1 where a: "a = (n, env1)" by (cases a)
    show ?thesis
    proof (cases "renderProperties props env1")
      case (Inl x)
      with Inr a Cons.IH [of env1] show ?thesis
        by (simp add: c recordParameter_rename [OF assms] renameNamed_def renamePieces_def)
    next
      case r: (Inr b)
      obtain qs env2 where b: "b = (qs, env2)" by (cases b)
      with Inr a r Cons.IH [of env1] show ?thesis
        by (simp add: c e recordParameter_rename [OF assms] renameNamed_def renamePieces_def)
    qed
  qed
  then show ?case by (simp add: p)
qed

lemma propertyBlock_rename:
  assumes "inj f"
  shows "propertyBlock (renameProps f props) (renameEnv f env)
           = renamePieces f (propertyBlock props env)"
proof (cases "props = []")
  case True
  then show ?thesis by (simp add: propertyBlock_def renameProps_def renamePieces_def)
next
  case False
  then have ne: "renameProps f props \<noteq> []" by (simp add: renameProps_def)
  show ?thesis
  proof (cases "renderProperties props env")
    case (Inl x)
    with False ne show ?thesis
      by (simp add: propertyBlock_def renderProperties_rename [OF assms] renamePieces_def)
  next
    case (Inr b)
    obtain qs env2 where b: "b = (qs, env2)" by (cases b)
    with Inr False ne show ?thesis
      by (simp add: propertyBlock_def renderProperties_rename [OF assms] renamePieces_def)
  qed
qed

lemma variablePart_rename:
  assumes "inj f"
  shows "variablePart s (renameIdentity f i) (renameEnv f env)
           = renamePieces f (variablePart s i env)"
proof (cases s)
  case True
  then show ?thesis by (simp add: variablePart_def renamePieces_def)
next
  case False
  show ?thesis
  proof (cases "nameOf env i")
    case (Inl x)
    with False show ?thesis
      by (simp add: variablePart_def nameOf_rename [OF assms] renameNamed_def renamePieces_def)
  next
    case (Inr a)
    obtain n env1 where a: "a = (n, env1)" by (cases a)
    with Inr False show ?thesis
      by (simp add: variablePart_def nameOf_rename [OF assms] renameNamed_def renamePieces_def)
  qed
qed

lemma renamed_seen:
  assumes "inj f"
  shows "renameIdentity f i \<in> renameIdentity f ` S \<longleftrightarrow> i \<in> S"
  by (auto simp: renameIdentity_eq [OF assms])

lemma renameNode_fields [simp]:
  "nodeVariable (renameNode f n) = renameIdentity f (nodeVariable n)"
  "nodeProperties (renameNode f n) = renameProps f (nodeProperties n)"
  "nodeLabels (renameNode f n) = nodeLabels n"
  "nodeWithoutVariable (renameNode f n) = nodeWithoutVariable n"
  "nodeWithoutLabels (renameNode f n) = nodeWithoutLabels n"
  by (simp_all add: renameNode_def)

lemma renameRel_fields [simp]:
  "relVariable (renameRel f r) = renameIdentity f (relVariable r)"
  "relProperties (renameRel f r) = renameProps f (relProperties r)"
  "relType (renameRel f r) = relType r"
  "relDirection (renameRel f r) = relDirection r"
  "relLength (renameRel f r) = relLength r"
  "relWithoutVariable (renameRel f r) = relWithoutVariable r"
  "relWithoutType (renameRel f r) = relWithoutType r"
  by (simp_all add: renameRel_def)

lemma renameProps_if: "(if b then [] else renameProps f props) = renameProps f (if b then [] else props)"
  by (simp add: renameProps_def)

lemma propertyBlock_rename_if:
  assumes "inj f"
  shows "propertyBlock (if b then [] else renameProps f props) (renameEnv f e)
           = renamePieces f (propertyBlock (if b then [] else props) e)"
  using propertyBlock_rename [OF assms, of "if b then [] else props" e]
  by (simp only: renameProps_if)

lemma renderNode_rename:
  assumes "inj f"
  shows "renderNode (map (renameIdentity f) seen) (renameNode f n) (renameEnv f env)
           = renamePieces f (renderNode seen n env)"
proof -
  have l: "nodeLabelsText (map (renameIdentity f) seen) (renameNode f n) = nodeLabelsText seen n"
    unfolding nodeLabelsText_def by (simp only: renameNode_fields set_map renamed_seen [OF assms])
  have u: "renderNode (map (renameIdentity f) seen) (renameNode f n) (renameEnv f env)
      = (case renamePieces f (variablePart (nodeWithoutVariable n) (nodeVariable n) env) of
           Inl x \<Rightarrow> Inl x
         | Inr (name, env1) \<Rightarrow>
            (case propertyBlock (if nodeVariable n \<in> set seen then []
                                 else renameProps f (nodeProperties n)) env1 of
               Inl x \<Rightarrow> Inl x
             | Inr (props, env2) \<Rightarrow>
                 Inr ([Text ''(''] @ name @ [Text (nodeLabelsText seen n)] @ props @ [Text '')''],
                      env2)))"
    unfolding renderNode_def l
    by (simp only: renameNode_fields set_map renamed_seen [OF assms] variablePart_rename [OF assms])
  show ?thesis
  proof (cases "variablePart (nodeWithoutVariable n) (nodeVariable n) env")
    case (Inl x)
    then show ?thesis unfolding u by (simp add: renderNode_def renamePieces_def)
  next
    case (Inr a)
    obtain name env1 where a: "a = (name, env1)" by (cases a)
    show ?thesis
    proof (cases "propertyBlock (if nodeVariable n \<in> set seen then [] else nodeProperties n) env1")
      case (Inl x)
      have "propertyBlock (if nodeVariable n \<in> set seen then []
                                 else renameProps f (nodeProperties n)) (renameEnv f env1) = Inl x"
        unfolding propertyBlock_rename_if [OF assms] Inl by (simp add: renamePieces_def)
      with Inr a Inl show ?thesis unfolding u by (simp add: renderNode_def renamePieces_def)
    next
      case b: (Inr c)
      obtain props env2 where c: "c = (props, env2)" by (cases c)
      have "propertyBlock (if nodeVariable n \<in> set seen then []
                                 else renameProps f (nodeProperties n)) (renameEnv f env1)
              = Inr (map (renamePiece f) props, renameEnv f env2)"
        unfolding propertyBlock_rename_if [OF assms] b c by (simp add: renamePieces_def)
      with Inr a b c show ?thesis unfolding u by (simp add: renderNode_def renamePieces_def)
    qed
  qed
qed

lemma renderRelationship_rename:
  assumes "inj f"
  shows "renderRelationship (map (renameIdentity f) seen) (renameRel f r) (renameEnv f env)
           = renamePieces f (renderRelationship seen r env)"
proof -
  have l: "relTypeText (map (renameIdentity f) seen) (renameRel f r) = relTypeText seen r"
    unfolding relTypeText_def by (simp only: renameRel_fields set_map renamed_seen [OF assms])
  have oc: "relOpening (renameRel f r) = relOpening r" "relClosing (renameRel f r) = relClosing r"
    by (simp_all add: relOpening_def relClosing_def)
  have u: "renderRelationship (map (renameIdentity f) seen) (renameRel f r) (renameEnv f env)
      = (case renamePieces f (variablePart (relWithoutVariable r) (relVariable r) env) of
           Inl x \<Rightarrow> Inl x
         | Inr (name, env1) \<Rightarrow>
            (case propertyBlock (if relVariable r \<in> set seen then []
                                 else renameProps f (relProperties r)) env1 of
               Inl x \<Rightarrow> Inl x
             | Inr (props, env2) \<Rightarrow>
                 Inr ([Text (relOpening r)] @ name
                      @ [Text (relTypeText seen r @ quantifierText (relLength r))]
                      @ props @ [Text (relClosing r)], env2)))"
    unfolding renderRelationship_def l oc
    by (simp only: renameRel_fields set_map renamed_seen [OF assms] variablePart_rename [OF assms])
  show ?thesis
  proof (cases "variablePart (relWithoutVariable r) (relVariable r) env")
    case (Inl x)
    then show ?thesis unfolding u by (simp add: renderRelationship_def renamePieces_def)
  next
    case (Inr a)
    obtain name env1 where a: "a = (name, env1)" by (cases a)
    show ?thesis
    proof (cases "propertyBlock (if relVariable r \<in> set seen then [] else relProperties r) env1")
      case (Inl x)
      have "propertyBlock (if relVariable r \<in> set seen then []
                                 else renameProps f (relProperties r)) (renameEnv f env1) = Inl x"
        unfolding propertyBlock_rename_if [OF assms] Inl by (simp add: renamePieces_def)
      with Inr a Inl show ?thesis unfolding u by (simp add: renderRelationship_def renamePieces_def)
    next
      case b: (Inr c)
      obtain props env2 where c: "c = (props, env2)" by (cases c)
      have "propertyBlock (if relVariable r \<in> set seen then []
                                 else renameProps f (relProperties r)) (renameEnv f env1)
              = Inr (map (renamePiece f) props, renameEnv f env2)"
        unfolding propertyBlock_rename_if [OF assms] b c by (simp add: renamePieces_def)
      with Inr a b c show ?thesis unfolding u by (simp add: renderRelationship_def renamePieces_def)
    qed
  qed
qed

lemma renderSteps_rename:
  assumes "inj f"
  shows "renderSteps (map (renameIdentity f) seen) (renameSteps f sts) (renameEnv f env)
           = renamePieces f (renderSteps seen sts env)"
proof (induction sts arbitrary: seen env)
  case Nil
  then show ?case by (simp add: renameSteps_def renamePieces_def)
next
  case (Cons st rest)
  obtain r n where st: "st = (r, n)" by (cases st)
  have c: "renameSteps f ((r, n) # rest) = (renameRel f r, renameNode f n) # renameSteps f rest"
    by (simp add: renameSteps_def)
  have s1: "renameIdentity f (relVariable r) # map (renameIdentity f) seen
              = map (renameIdentity f) (relVariable r # seen)"
    and s2: "renameIdentity f (nodeVariable n) # renameIdentity f (relVariable r)
               # map (renameIdentity f) seen
              = map (renameIdentity f) (nodeVariable n # relVariable r # seen)"
    by simp_all
  have "renderSteps (map (renameIdentity f) seen) (renameSteps f ((r, n) # rest)) (renameEnv f env)
           = renamePieces f (renderSteps seen ((r, n) # rest) env)"
  proof (cases "renderRelationship seen r env")
    case (Inl x)
    then show ?thesis
      by (simp add: c renderRelationship_rename [OF assms] renamePieces_def)
  next
    case (Inr a)
    obtain ps env1 where a: "a = (ps, env1)" by (cases a)
    show ?thesis
    proof (cases "renderNode (relVariable r # seen) n env1")
      case (Inl x)
      with Inr a renderNode_rename [OF assms, of "relVariable r # seen" n env1] show ?thesis
        by (simp add: c renderRelationship_rename [OF assms] renamePieces_def)
    next
      case b: (Inr d)
      obtain qs env2 where d: "d = (qs, env2)" by (cases d)
      show ?thesis
      proof (cases "renderSteps (nodeVariable n # relVariable r # seen) rest env2")
        case (Inl x)
        with Inr a b d renderNode_rename [OF assms, of "relVariable r # seen" n env1]
          Cons.IH [of "nodeVariable n # relVariable r # seen" env2]
        show ?thesis
          by (simp add: c renderRelationship_rename [OF assms] renamePieces_def)
      next
        case e: (Inr g)
        obtain rs env3 where g: "g = (rs, env3)" by (cases g)
        with Inr a b d e renderNode_rename [OF assms, of "relVariable r # seen" n env1]
          Cons.IH [of "nodeVariable n # relVariable r # seen" env2]
        show ?thesis
          by (simp add: c renderRelationship_rename [OF assms] renamePieces_def)
      qed
    qed
  qed
  then show ?case by (simp add: st)
qed

lemma renderPattern_rename:
  assumes "inj f"
  shows "renderPattern (renamePatternValue f pv) (renameEnv f env)
           = renamePieces f (renderPattern pv env)"
proof (cases pv)
  case (Partial pp)
  then show ?thesis by (simp add: renderPattern_def renamePieces_def)
next
  case (Complete p)
  have s0: "[renameIdentity f (nodeVariable (firstNode p))]
               = map (renameIdentity f) [nodeVariable (firstNode p)]"
    and n0: "([] :: identity list) = map (renameIdentity f) []" by simp_all
  show ?thesis
  proof (cases "renderNode [] (firstNode p) env")
    case (Inl x)
    with Complete renderNode_rename [OF assms, of "[]" "firstNode p" env] show ?thesis
      by (simp add: renderPattern_def renamePattern_def renamePieces_def)
  next
    case (Inr a)
    obtain ps env1 where a: "a = (ps, env1)" by (cases a)
    show ?thesis
    proof (cases "renderSteps [nodeVariable (firstNode p)] (steps p) env1")
      case (Inl x)
      with Complete Inr a renderNode_rename [OF assms, of "[]" "firstNode p" env]
        renderSteps_rename [OF assms, of "[nodeVariable (firstNode p)]" "steps p" env1]
      show ?thesis
        by (simp add: renderPattern_def renamePattern_def renamePieces_def)
    next
      case b: (Inr d)
      obtain qs env2 where d: "d = (qs, env2)" by (cases d)
      with Complete Inr a b renderNode_rename [OF assms, of "[]" "firstNode p" env]
        renderSteps_rename [OF assms, of "[nodeVariable (firstNode p)]" "steps p" env1]
      show ?thesis
        by (simp add: renderPattern_def renamePattern_def renamePieces_def)
    qed
  qed
qed

lemma render_all_rename_aux:
  assumes "\<And>c env. c \<in> set cs \<Longrightarrow> render (renameAst f c) (renameEnv f env) = renamePieces f (render c env)"
  shows "render_all (map (renameAst f) cs) (renameEnv f env) = renamePieces f (render_all cs env)"
  using assms
proof (induction cs arbitrary: env)
  case Nil
  then show ?case by (simp add: renamePieces_def)
next
  case (Cons c cs)
  have h: "render (renameAst f c) (renameEnv f env) = renamePieces f (render c env)"
    using Cons.prems [of c env] by simp
  have ih: "render_all (map (renameAst f) cs) (renameEnv f e) = renamePieces f (render_all cs e)" for e
    using Cons.IH [of e] Cons.prems by simp
  show ?case
  proof (cases "render c env")
    case (Inl x)
    then show ?thesis by (simp add: h renamePieces_def)
  next
    case (Inr a)
    obtain ps env1 where a: "a = (ps, env1)" by (cases a)
    show ?thesis
    proof (cases "render_all cs env1")
      case (Inl x)
      with Inr a ih [of env1] show ?thesis by (simp add: h renamePieces_def)
    next
      case b: (Inr d)
      obtain qs env2 where d: "d = (qs, env2)" by (cases d)
      with Inr a b ih [of env1] show ?thesis by (simp add: h renamePieces_def)
    qed
  qed
qed

lemma render_rename:
  assumes "inj f"
  shows "render (renameAst f t) (renameEnv f env) = renamePieces f (render t env)"
proof (induction t arbitrary: env)
  case (Ref i)
  show ?case
    by (cases "nameOf env i") (auto simp: nameOf_rename [OF assms] renameNamed_def renamePieces_def)
next
  case (Param i v)
  show ?case
    by (cases "recordParameter env i v")
       (auto simp: recordParameter_rename [OF assms] renameNamed_def renamePieces_def)
next
  case (Syntax s)
  show ?case by (simp add: renamePieces_def)
next
  case (PatternNode pv)
  show ?case by (simp add: renderPattern_rename [OF assms])
next
  case (Composite children)
  have "render_all (map (renameAst f) children) (renameEnv f env)
          = renamePieces f (render_all children env)"
    by (rule render_all_rename_aux) (rule Composite.IH)
  then show ?case by simp
qed

lemma text_of_rename: "text_of (map (renamePiece f) ps) = text_of ps"
proof -
  have "pieceText (renamePiece f p) = pieceText p" for p by (cases p) simp_all
  then show ?thesis by (simp add: text_of_def comp_def)
qed

lemma renameEnv_fresh: "renameEnv f (freshEnvironment p) = freshEnvironment p"
  by (simp add: renameEnv_def freshEnvironment_def)

lemma finalize_rename: "finalize (renameEnv f env) extras = finalize env extras"
  by (simp add: finalize_def)

lemma build_rename:
  assumes "inj f"
  shows "build (renameAst f root) pre extras = build root pre extras"
proof -
  have r: "render (renameAst f root) (freshEnvironment pre)
             = renamePieces f (render root (freshEnvironment pre))"
    using render_rename [OF assms, of root "freshEnvironment pre"] by (simp add: renameEnv_fresh)
  show ?thesis
  proof (cases "render root (freshEnvironment pre)")
    case (Inl x)
    then show ?thesis by (simp add: build_def r renamePieces_def)
  next
    case (Inr a)
    obtain ps env where a: "a = (ps, env)" by (cases a)
    with Inr show ?thesis
      by (cases "finalize env extras")
         (simp_all add: build_def r renamePieces_def text_of_rename finalize_rename)
  qed
qed

lemma astCypher_rename:
  assumes "inj f"
  shows "astCypher (renameAst f e) (renameEnv f env) = renameNamed f (astCypher e env)"
proof (cases "render e env")
  case (Inl x)
  then show ?thesis
    by (simp add: astCypher_def render_rename [OF assms] renamePieces_def renameNamed_def)
next
  case (Inr a)
  obtain ps env1 where a: "a = (ps, env1)" by (cases a)
  with Inr show ?thesis
    by (simp add: astCypher_def render_rename [OF assms] renamePieces_def renameNamed_def
          text_of_rename)
qed

lemma serializeColumn_rename:
  assumes "inj f"
  shows "serializeColumn astCypher astCypher (renameColumn f c) (renameEnv f env)
           = renameNamed f (serializeColumn astCypher astCypher c env)"
proof (cases c)
  case (Plain e)
  show ?thesis
  proof (cases "astCypher e env")
    case (Inl x)
    with Plain show ?thesis
      by (simp add: serializeColumn_def astCypher_rename [OF assms] renameNamed_def)
  next
    case (Inr a)
    obtain s env1 where a: "a = (s, env1)" by (cases a)
    with Inr Plain show ?thesis
      by (simp add: serializeColumn_def astCypher_rename [OF assms] renameNamed_def)
  qed
next
  case (Aliased e al)
  show ?thesis
  proof (cases "astCypher e env")
    case (Inl x)
    with Aliased show ?thesis
      by (simp add: serializeColumn_def astCypher_rename [OF assms] renameNamed_def)
  next
    case (Inr a)
    obtain s env1 where a: "a = (s, env1)" by (cases a)
    show ?thesis
    proof (cases al)
      case (AliasString x)
      with Inr a Aliased show ?thesis
        by (simp add: serializeColumn_def astCypher_rename [OF assms] renameNamed_def)
    next
      case (AliasRef r)
      show ?thesis
      proof (cases "astCypher r env1")
        case (Inl x)
        with Inr a Aliased AliasRef show ?thesis
          by (simp add: serializeColumn_def astCypher_rename [OF assms] renameNamed_def)
      next
        case b: (Inr d)
        obtain t env2 where d: "d = (t, env2)" by (cases d)
        with Inr a Aliased AliasRef b show ?thesis
          by (simp add: serializeColumn_def astCypher_rename [OF assms] renameNamed_def)
      qed
    qed
  qed
qed

lemma map_render_rename:
  assumes "\<And>c env. ser (rn c) (renameEnv f env) = renameNamed f (ser c env)"
  shows "map_render ser (map rn cs) (renameEnv f env)
           = (case map_render ser cs env of Inl x \<Rightarrow> Inl x
              | Inr (ss, env1) \<Rightarrow> Inr (ss, renameEnv f env1))"
proof (induction cs arbitrary: env)
  case Nil
  then show ?case by simp
next
  case (Cons c cs)
  show ?case
  proof (cases "ser c env")
    case (Inl x)
    then show ?thesis by (simp add: assms renameNamed_def)
  next
    case (Inr a)
    obtain s env1 where a: "a = (s, env1)" by (cases a)
    show ?thesis
    proof (cases "map_render ser cs env1")
      case (Inl x)
      with Inr a Cons.IH [of env1] show ?thesis by (simp add: assms renameNamed_def)
    next
      case b: (Inr d)
      obtain ss env2 where d: "d = (ss, env2)" by (cases d)
      with Inr a b Cons.IH [of env1] show ?thesis by (simp add: assms renameNamed_def)
    qed
  qed
qed

lemma getCypher_rename:
  assumes "inj f"
  shows "getCypher astCypher astCypher (renameProjection f this) (renameEnv f env)
           = (case getCypher astCypher astCypher this env of Inl x \<Rightarrow> Inl x
              | Inr (txt, this', env') \<Rightarrow> Inr (txt, renameProjection f this', renameEnv f env'))"
proof -
  have m: "map_render (serializeColumn astCypher astCypher) (map (renameColumn f) (columns this))
             (renameEnv f env)
           = (case map_render (serializeColumn astCypher astCypher) (columns this) env of
                Inl x \<Rightarrow> Inl x | Inr (ss, env1) \<Rightarrow> Inr (ss, renameEnv f env1))"
    by (rule map_render_rename) (rule serializeColumn_rename [OF assms])
  show ?thesis
  proof (cases "map_render (serializeColumn astCypher astCypher) (columns this) env")
    case (Inl x)
    then show ?thesis by (simp add: getCypher_def getCypher_with_def renameProjection_def m)
  next
    case (Inr a)
    obtain ss env1 where a: "a = (ss, env1)" by (cases a)
    with Inr show ?thesis by (simp add: getCypher_def getCypher_with_def renameProjection_def m)
  qed
qed

text \<open>
  C5. A build depends on the shape of the tree only, not on which objects its identities
  are: the same tree made of other identity objects (their numbers replaced one to one)
  builds to the same text and the same parameters, or fails with the same error. Rendering
  a projection whose columns are such trees gives the same text in the same way.
\<close>

theorem build_deterministic:
  assumes "inj f"
  shows "build (renameAst f root) pre extras = build root pre extras
    \<and> getCypher astCypher astCypher (renameProjection f this) (freshEnvironment pre)
        = (case getCypher astCypher astCypher this (freshEnvironment pre) of Inl x \<Rightarrow> Inl x
           | Inr (txt, this', env') \<Rightarrow> Inr (txt, renameProjection f this', renameEnv f env'))"
  using build_rename [OF assms, of root pre extras]
    getCypher_rename [OF assms, of this "freshEnvironment pre"]
  by (simp add: renameEnv_fresh)

theorem build_deterministic_witness:
  "inj (\<lambda>u :: nat. u + 100)
   \<and> build (Composite [Ref (Identity 100 VariableClass None), Syntax '', '',
                     Ref (Identity 101 VariableClass (Some ''movie'')), Syntax '', '',
                     Ref (Identity 100 VariableClass None), Syntax '' = '',
                     Param (Identity 102 ParameterClass None) ''Keanu'']) ''q_'' []
     = build (Composite [Ref (Identity 0 VariableClass None), Syntax '', '',
                     Ref (Identity 1 VariableClass (Some ''movie'')), Syntax '', '',
                     Ref (Identity 0 VariableClass None), Syntax '' = '',
                     Param (Identity 2 ParameterClass None) ''Keanu'']) ''q_'' []
   \<and> build (Composite [Ref (Identity 100 VariableClass None), Syntax '', '',
                     Ref (Identity 101 VariableClass (Some ''movie'')), Syntax '', '',
                     Ref (Identity 100 VariableClass None), Syntax '' = '',
                     Param (Identity 102 ParameterClass None) ''Keanu'']) ''q_'' []
     = Inr (''q_var0, movie, q_var0 = $q_param0'', [(''q_param0'', ''Keanu'')])"
proof -
  have i: "inj (\<lambda>u :: nat. u + 100)" by (simp add: inj_def)
  let ?t = "Composite [Ref (Identity 0 VariableClass None), Syntax '', '',
                     Ref (Identity 1 VariableClass (Some ''movie'')), Syntax '', '',
                     Ref (Identity 0 VariableClass None), Syntax '' = '',
                     Param (Identity 2 ParameterClass None) ''Keanu'']"
  have r: "renameAst (\<lambda>u. u + 100) ?t
       = Composite [Ref (Identity 100 VariableClass None), Syntax '', '',
                     Ref (Identity 101 VariableClass (Some ''movie'')), Syntax '', '',
                     Ref (Identity 100 VariableClass None), Syntax '' = '',
                     Param (Identity 102 ParameterClass None) ''Keanu'']"
    by simp
  from build_deterministic [OF i, of ?t "''q_''" "[]", THEN conjunct1]
  have e: "build (renameAst (\<lambda>u. u + 100) ?t) ''q_'' [] = build ?t ''q_'' ([] :: (string \<times> string) list)" .
  from e r i example_build show ?thesis by simp
qed

section \<open>Examples of the specification\<close>

text \<open>The examples of section 8 of the specification, with the class tag \<open>var\<close>, and
  the errors of section 7.\<close>

lemma pattern_example_direction:
  "build (PatternNode (Complete
      (to \<lparr> nodeVariable = Identity 2 VariableClass None, nodeLabels = [''Movie''],
            nodeProperties = [], nodeWithoutVariable = False, nodeWithoutLabels = False \<rparr>
        (withDirection DirLeft
          (related \<lparr> relVariable = Identity 1 VariableClass None, relType = Some ''ACTED_IN'',
                     relDirection = DirRight, relLength = None, relProperties = [],
                     relWithoutVariable = False, relWithoutType = False \<rparr>
            (newPattern \<lparr> nodeVariable = Identity 0 VariableClass None, nodeLabels = [''Person''],
                          nodeProperties = [], nodeWithoutVariable = False,
                          nodeWithoutLabels = False \<rparr>)))))) [] ([] :: (string \<times> string) list)
   = Inr (''(var0:Person)<-[var1:ACTED_IN]-(var2:Movie)'', [])"
  by code_simp

lemma pattern_example_cycle:
  "build (PatternNode (Complete
      (to \<lparr> nodeVariable = Identity 0 VariableClass None, nodeLabels = [''Person''],
            nodeProperties = [(''name'', Identity 5 ParameterClass None, ''Keanu'')],
            nodeWithoutVariable = False, nodeWithoutLabels = False \<rparr>
        (related \<lparr> relVariable = Identity 1 VariableClass None, relType = Some ''DIRECTED'',
                   relDirection = DirUndirected, relLength = Some (Bounds (Some 2) (Some 10)),
                   relProperties = [], relWithoutVariable = False, relWithoutType = False \<rparr>
          (newPattern \<lparr> nodeVariable = Identity 0 VariableClass None, nodeLabels = [''Person''],
                        nodeProperties = [(''name'', Identity 5 ParameterClass None, ''Keanu'')],
                        nodeWithoutVariable = False, nodeWithoutLabels = False \<rparr>))))) ''m_'' []
   = Inr (''(m_var0:Person {name: $m_param0})-[m_var1:DIRECTED*2..10]-(m_var0)'',
          [(''m_param0'', ''Keanu'')])"
  by code_simp

lemma pattern_example_errors:
  "withLength (Bounds (Some 3) (Some 2))
      (related \<lparr> relVariable = Identity 1 VariableClass None, relType = None,
                 relDirection = DirRight, relLength = None, relProperties = [],
                 relWithoutVariable = False, relWithoutType = False \<rparr>
        (newPattern \<lparr> nodeVariable = Identity 0 VariableClass None, nodeLabels = [],
                      nodeProperties = ([] :: (string \<times> identity \<times> string) list),
                      nodeWithoutVariable = False, nodeWithoutLabels = False \<rparr>))
     = Inl InvalidQuantifierError"
  "build (Composite [Ref (Identity 0 VariableClass (Some ''n'')), Syntax '', '',
                     Ref (Identity 1 VariableClass (Some ''n''))]) [] ([] :: (string \<times> string) list)
     = Inl NameCollisionError"
  "build (Composite [Param (Identity 0 ParameterClass None) ''a'', Syntax '', '',
                     Param (Identity 0 ParameterClass None) ''b'']) [] []
     = Inl AmbiguousParameterBindingError"
  "build (Syntax ''RETURN 1'') [] [(''p'', ''1''), (''p'', ''2'')] = Inl NameCollisionError"
  by code_simp+

end
